theory Spec2Isabelle
  imports Main "HOL-Library.Word"
begin

section \<open>Byte ranges (text.h)\<close>

text \<open>
  Positions are \<open>size_t\<close>: 64-bit unsigned words, compared unsigned, with wrap-around
  arithmetic. \<open>EPOS\<close> is \<open>(size_t)-1\<close>.
\<close>

type_synonym size_t = "64 word"

definition EPOS :: size_t where
  "EPOS = - 1"

record Filerange =
  rstart :: size_t
  rend :: size_t

text \<open>The macros \<open>text_range_valid\<close>, \<open>text_range_size\<close> and \<open>text_range_empty\<close>.\<close>

definition text_range_valid :: "Filerange \<Rightarrow> bool" where
  "text_range_valid r \<longleftrightarrow> rstart r \<noteq> EPOS \<and> rend r \<noteq> EPOS \<and> rstart r \<le> rend r"

definition text_range_size :: "Filerange \<Rightarrow> size_t" where
  "text_range_size r = (if text_range_valid r then rend r - rstart r else 0)"

definition text_range_empty :: Filerange where
  "text_range_empty = \<lparr>rstart = EPOS, rend = EPOS\<rparr>"

text \<open>
  Modelled from the spec: the body of \<open>text_range_new\<close> is not part of the sources at
  hand; text.h documents it as "create new range [min(a,b), max(a,b)]".
\<close>

definition text_range_new :: "size_t \<Rightarrow> size_t \<Rightarrow> Filerange" where
  "text_range_new a b = \<lparr>rstart = min a b, rend = max a b\<rparr>"

section \<open>Transcript of changes (sam.c)\<close>

datatype SamError =
    SAM_ERR_OK
  | SAM_ERR_MEMORY
  | SAM_ERR_ADDRESS
  | SAM_ERR_NO_ADDRESS
  | SAM_ERR_UNMATCHED_BRACE
  | SAM_ERR_REGEX
  | SAM_ERR_TEXT
  | SAM_ERR_SHELL
  | SAM_ERR_COMMAND
  | SAM_ERR_EXECUTE
  | SAM_ERR_NEWLINE
  | SAM_ERR_MARK
  | SAM_ERR_CONFLICT
  | SAM_ERR_WRITE_CONFLICT
  | SAM_ERR_LOOP_INVALID_CMD
  | SAM_ERR_GROUP_INVALID_CMD
  | SAM_ERR_COUNT

text \<open>
  \<open>enum ChangeType\<close> is a bit set: \<open>TRANSCRIPT_INSERT = 1\<close>, \<open>TRANSCRIPT_DELETE = 2\<close>,
  \<open>TRANSCRIPT_CHANGE = TRANSCRIPT_INSERT|TRANSCRIPT_DELETE\<close>. The two functions below
  are the tests \<open>type & TRANSCRIPT_INSERT\<close> and \<open>type & TRANSCRIPT_DELETE\<close>.
\<close>

datatype ChangeType = TRANSCRIPT_INSERT | TRANSCRIPT_DELETE | TRANSCRIPT_CHANGE

fun type_has_insert :: "ChangeType \<Rightarrow> bool" where
  "type_has_insert TRANSCRIPT_INSERT = True"
| "type_has_insert TRANSCRIPT_DELETE = False"
| "type_has_insert TRANSCRIPT_CHANGE = True"

fun type_has_delete :: "ChangeType \<Rightarrow> bool" where
  "type_has_delete TRANSCRIPT_INSERT = False"
| "type_has_delete TRANSCRIPT_DELETE = True"
| "type_has_delete TRANSCRIPT_CHANGE = True"

text \<open>
  \<open>struct Change\<close>. Windows and selections are identified by numbers; a \<open>NULL\<close>
  selection is \<open>None\<close>. The \<open>next\<close> pointer is the list structure of the transcript.
  A node fresh from \<open>calloc\<close> has no data, length 0 and count 0.
\<close>

record Change =
  ctype :: ChangeType
  win :: nat
  sel :: "nat option"
  range :: Filerange
  data :: string
  len :: size_t
  count :: int

text \<open>
  \<open>Transcript\<close>: the linked list \<open>changes\<close>, the pointer \<open>latest\<close> to the node linked
  most recently (here its index in the list, \<open>None\<close> for \<open>NULL\<close>) and \<open>error\<close>.
\<close>

record Transcript =
  changes :: "Change list"
  latest :: "nat option"
  error :: SamError

definition transcript_zero :: Transcript where
  "transcript_zero = \<lparr>changes = [], latest = None, error = SAM_ERR_OK\<rparr>"

text \<open>
  The loop \<open>while (next && next->range.end <= range->start)\<close> of \<open>change_new\<close>: how
  many nodes it steps over, starting at the head of the given list.
\<close>

fun skip_before :: "size_t \<Rightarrow> Change list \<Rightarrow> nat" where
  "skip_before s [] = 0"
| "skip_before s (c # cs) = (if rend (range c) \<le> s then Suc (skip_before s cs) else 0)"

text \<open>
  Where the walk of \<open>change_new\<close> starts: behind \<open>latest\<close> when that node ends at or
  before the new range, at the head of the list otherwise. \<open>latest\<close> points to a node
  of the list, so its index is below the length.
\<close>

definition walk_start :: "Transcript \<Rightarrow> Filerange \<Rightarrow> nat" where
  "walk_start t r =
     (case latest t of
        None \<Rightarrow> 0
      | Some l \<Rightarrow>
          if l < length (changes t) \<and> rend (range (changes t ! l)) \<le> rstart r
          then Suc l else 0)"

definition insert_index :: "Transcript \<Rightarrow> Filerange \<Rightarrow> nat" where
  "insert_index t r =
     walk_start t r + skip_before (rstart r) (drop (walk_start t r) (changes t))"

definition fresh_change :: "ChangeType \<Rightarrow> Filerange \<Rightarrow> nat \<Rightarrow> nat option \<Rightarrow> Change" where
  "fresh_change ty r w s =
     \<lparr>ctype = ty, win = w, sel = s, range = r, data = [], len = 0, count = 0\<rparr>"

text \<open>The test \<open>next && next->range.start < range->end\<close> after the walk.\<close>

definition conflicts :: "Transcript \<Rightarrow> Filerange \<Rightarrow> bool" where
  "conflicts t r \<longleftrightarrow>
     insert_index t r < length (changes t) \<and>
     rstart (range (changes t ! insert_index t r)) < rend r"

text \<open>
  \<open>change_new\<close>. The result is the new transcript and the index of the node linked
  (\<open>None\<close> for a \<open>NULL\<close> result). \<open>alloc_ok\<close> says whether \<open>calloc\<close> succeeds.
\<close>

definition change_new ::
  "bool \<Rightarrow> Transcript \<Rightarrow> ChangeType \<Rightarrow> Filerange \<Rightarrow> nat \<Rightarrow> nat option
     \<Rightarrow> Transcript \<times> nat option" where
  "change_new alloc_ok t ty r w s =
     (if text_range_valid r then
        let k = insert_index t r in
        if conflicts t r then
          (t\<lparr>error := SAM_ERR_CONFLICT\<rparr>, None)
        else if alloc_ok then
          (t\<lparr>changes := take k (changes t) @ fresh_change ty r w s # drop k (changes t),
             latest := Some k\<rparr>, Some k)
        else (t, None)
      else (t, None))"

text \<open>Writing \<open>data\<close>, \<open>len\<close> and \<open>count\<close> through the pointer \<open>change_new\<close> returned.\<close>

definition set_payload :: "Transcript \<Rightarrow> nat \<Rightarrow> string \<Rightarrow> size_t \<Rightarrow> int \<Rightarrow> Transcript" where
  "set_payload t k d n cnt =
     t\<lparr>changes := (changes t)[k := (changes t ! k)\<lparr>data := d, len := n, count := cnt\<rparr>]\<rparr>"

text \<open>
  \<open>sam_insert\<close>, \<open>sam_delete\<close> and \<open>sam_change\<close> on the transcript of the window's
  file; the boolean is the function's result.
\<close>

definition sam_insert ::
  "bool \<Rightarrow> Transcript \<Rightarrow> nat \<Rightarrow> nat option \<Rightarrow> size_t \<Rightarrow> string \<Rightarrow> size_t \<Rightarrow> int
     \<Rightarrow> Transcript \<times> bool" where
  "sam_insert alloc_ok t w s pos d n cnt =
     (case change_new alloc_ok t TRANSCRIPT_INSERT (text_range_new pos pos) w s of
        (t', Some k) \<Rightarrow> (set_payload t' k d n cnt, True)
      | (t', None) \<Rightarrow> (t', False))"

definition sam_delete ::
  "bool \<Rightarrow> Transcript \<Rightarrow> nat \<Rightarrow> nat option \<Rightarrow> Filerange \<Rightarrow> Transcript \<times> bool" where
  "sam_delete alloc_ok t w s r =
     (case change_new alloc_ok t TRANSCRIPT_DELETE r w s of
        (t', Some k) \<Rightarrow> (t', True)
      | (t', None) \<Rightarrow> (t', False))"

definition sam_change ::
  "bool \<Rightarrow> Transcript \<Rightarrow> nat \<Rightarrow> nat option \<Rightarrow> Filerange \<Rightarrow> string \<Rightarrow> size_t \<Rightarrow> int
     \<Rightarrow> Transcript \<times> bool" where
  "sam_change alloc_ok t w s r d n cnt =
     (case change_new alloc_ok t TRANSCRIPT_CHANGE r w s of
        (t', Some k) \<Rightarrow> (set_payload t' k d n cnt, True)
      | (t', None) \<Rightarrow> (t', False))"

text \<open>
  \<open>sam_transcript_error\<close>: sets the error when changes are pending and returns whether
  the transcript carries an error.
\<close>

definition sam_transcript_error :: "Transcript \<Rightarrow> SamError \<Rightarrow> Transcript \<times> bool" where
  "sam_transcript_error t e =
     (let t' = (if changes t \<noteq> [] then t\<lparr>error := e\<rparr> else t)
      in (t', error t' \<noteq> SAM_ERR_OK))"

text \<open>
  What the command handlers do to the transcript of a file while the commands of one
  line run: \<open>sam_insert\<close> (commands \<open>a\<close>, \<open>i\<close>), \<open>sam_delete\<close> (\<open>d\<close>, \<open><\<close>),
  \<open>sam_change\<close> (\<open>c\<close>, the filter commands) and the check
  \<open>sam_transcript_error(&file->transcript, SAM_ERR_WRITE_CONFLICT)\<close> of \<open>w\<close>. The
  boolean of the first three says whether \<open>calloc\<close> succeeds.
\<close>

datatype TranscriptOp =
    OpInsert bool nat "nat option" size_t string size_t int
  | OpDelete bool nat "nat option" Filerange
  | OpChange bool nat "nat option" Filerange string size_t int
  | OpWriteCheck

fun transcript_op :: "TranscriptOp \<Rightarrow> Transcript \<Rightarrow> Transcript" where
  "transcript_op (OpInsert a w s pos d n cnt) t = fst (sam_insert a t w s pos d n cnt)"
| "transcript_op (OpDelete a w s r) t = fst (sam_delete a t w s r)"
| "transcript_op (OpChange a w s r d n cnt) t = fst (sam_change a t w s r d n cnt)"
| "transcript_op OpWriteCheck t = fst (sam_transcript_error t SAM_ERR_WRITE_CONFLICT)"

fun transcript_ops :: "TranscriptOp list \<Rightarrow> Transcript \<Rightarrow> Transcript" where
  "transcript_ops [] t = t"
| "transcript_ops (x # xs) t = transcript_ops xs (transcript_op x t)"

text \<open>
  Two byte ranges overlap when each starts strictly below the other's end.
\<close>

definition ranges_overlap :: "Filerange \<Rightarrow> Filerange \<Rightarrow> bool" where
  "ranges_overlap a b \<longleftrightarrow> rstart a < rend b \<and> rstart b < rend a"

definition change_starts :: "Transcript \<Rightarrow> size_t list" where
  "change_starts t = map (\<lambda>c. rstart (range c)) (changes t)"

definition disjoint_changes :: "Change \<Rightarrow> Change \<Rightarrow> bool" where
  "disjoint_changes a b \<longleftrightarrow> \<not> ranges_overlap (range a) (range b)"

text \<open>
  The state of a transcript between two calls of \<open>change_new\<close>: every linked range is
  valid, each node ends at or before the start of every later node, and \<open>latest\<close>
  is \<open>NULL\<close> or one of the nodes.
\<close>

definition ends_before :: "Change \<Rightarrow> Change \<Rightarrow> bool" where
  "ends_before a b \<longleftrightarrow> rend (range a) \<le> rstart (range b)"

definition transcript_inv :: "Transcript \<Rightarrow> bool" where
  "transcript_inv t \<longleftrightarrow>
     list_all (\<lambda>c. text_range_valid (range c)) (changes t) \<and>
     sorted_wrt ends_before (changes t) \<and>
     (case latest t of None \<Rightarrow> True | Some l \<Rightarrow> l < length (changes t))"

section \<open>The apply phase of \<open>sam_cmd\<close>\<close>

text \<open>
  Modelled from the spec: the piece-table text (\<open>text_insert\<close>, \<open>text_delete_range\<close>) is
  an external collaborator whose code is not at hand; text.h documents "insert data at
  the given byte position" and "delete data at given byte position", each returning
  whether it succeeded. The text is its byte sequence; an operation outside the text
  fails and leaves it as it was.
\<close>

definition text_insert :: "string \<Rightarrow> size_t \<Rightarrow> string \<Rightarrow> size_t \<Rightarrow> string" where
  "text_insert txt pos d n =
     (if unat pos \<le> length txt
      then take (unat pos) txt @ take (unat n) d @ drop (unat pos) txt
      else txt)"

definition text_delete_range :: "string \<Rightarrow> Filerange \<Rightarrow> string" where
  "text_delete_range txt r =
     (if text_range_valid r \<and> unat (rend r) \<le> length txt
      then take (unat (rstart r)) txt @ drop (unat (rend r)) txt
      else txt)"

text \<open>What the apply phase asks of the view (selections and cursors), in call order.\<close>

datatype ViewEvent =
    DisposeForce nat
  | CursorsTo nat size_t
  | SelectionsSetAnchored nat Filerange
  | SelectionsNewAnchored nat Filerange

text \<open>
  The state of the loop over the changes of one file: the text, the running
  \<open>ptrdiff_t delta\<close> (two's complement, added to \<open>size_t\<close> positions modulo \<open>2^64\<close>)
  and the view calls made so far.
\<close>

record ApplyState =
  a_text :: string
  a_delta :: size_t
  a_events :: "ViewEvent list"

text \<open>
  \<open>for (int i = 0; i < c->count; i++) { text_insert(...); delta += c->len; }\<close>, the
  argument counting the iterations that remain.
\<close>

fun insert_loop :: "nat \<Rightarrow> size_t \<Rightarrow> string \<Rightarrow> size_t \<Rightarrow> ApplyState \<Rightarrow> ApplyState" where
  "insert_loop 0 pos d n st = st"
| "insert_loop (Suc k) pos d n st =
     insert_loop k pos d n
       (st\<lparr>a_text := text_insert (a_text st) pos d n, a_delta := a_delta st + n\<rparr>)"

definition shift_range :: "size_t \<Rightarrow> Filerange \<Rightarrow> Filerange" where
  "shift_range delta r = \<lparr>rstart = rstart r + delta, rend = rend r + delta\<rparr>"

definition apply_delete :: "bool \<Rightarrow> Change \<Rightarrow> Filerange \<Rightarrow> ApplyState \<Rightarrow> ApplyState" where
  "apply_delete visual c r st =
     (if type_has_delete (ctype c) then
        st\<lparr>a_text := text_delete_range (a_text st) r,
           a_delta := a_delta st - text_range_size r,
           a_events := a_events st @
             (case sel c of
                Some s \<Rightarrow>
                  if ctype c = TRANSCRIPT_DELETE
                  then [if visual then DisposeForce s else CursorsTo s (rstart r)]
                  else []
              | None \<Rightarrow> [])\<rparr>
      else st)"

definition apply_insert :: "bool \<Rightarrow> Change \<Rightarrow> Filerange \<Rightarrow> ApplyState \<Rightarrow> ApplyState" where
  "apply_insert visual c r st =
     (if type_has_insert (ctype c) then
        let st' = insert_loop (nat (count c)) (rstart r) (data c) (len c) st;
            r' = text_range_new (rstart r) (rstart r + len c * of_int (count c))
        in st'\<lparr>a_events := a_events st' @
             (case sel c of
                Some s \<Rightarrow>
                  if visual then [SelectionsSetAnchored s r']
                  else if CHR 0x0A \<in> set (take (unat (len c)) (data c))
                  then [CursorsTo s (rstart r')]
                  else [CursorsTo s (rend r')]
              | None \<Rightarrow> if visual then [SelectionsNewAnchored (win c) r'] else [])\<rparr>
      else st)"

text \<open>One pass of the body of \<open>for (Change *c = t->changes; c; c = c->next)\<close>.\<close>

definition apply_change :: "bool \<Rightarrow> Change \<Rightarrow> ApplyState \<Rightarrow> ApplyState" where
  "apply_change visual c st =
     (let r = shift_range (a_delta st) (range c)
      in apply_insert visual c r (apply_delete visual c r st))"

fun apply_changes :: "bool \<Rightarrow> Change list \<Rightarrow> ApplyState \<Rightarrow> ApplyState" where
  "apply_changes visual [] st = st"
| "apply_changes visual (c # cs) st = apply_changes visual cs (apply_change visual c st)"

text \<open>
  A file as the apply phase sees it. The snapshots taken before and after the loop
  belong to the undo history and leave the text as it is.
\<close>

record File =
  internal :: bool
  ftext :: string
  transcript :: Transcript

text \<open>
  The body of the loop over the files in \<open>sam_cmd\<close>, after the commands have run:
  the file afterwards, the value of \<open>err\<close> afterwards and the view calls made.
  \<open>sam_transcript_free\<close> releases the nodes on both paths; the transcript itself is
  zeroed at the start of the next \<open>sam_cmd\<close>.
\<close>

definition apply_file :: "bool \<Rightarrow> File \<Rightarrow> SamError \<Rightarrow> File \<times> SamError \<times> ViewEvent list" where
  "apply_file visual f err =
     (if internal f then (f, err, [])
      else if error (transcript f) \<noteq> SAM_ERR_OK then (f, error (transcript f), [])
      else
        let st = apply_changes visual (changes (transcript f))
                   \<lparr>a_text = ftext f, a_delta = 0, a_events = []\<rparr>
        in (f\<lparr>ftext := a_text st\<rparr>, err, a_events st))"

fun apply_files :: "bool \<Rightarrow> File list \<Rightarrow> SamError \<Rightarrow> File list \<times> SamError \<times> ViewEvent list" where
  "apply_files visual [] err = ([], err, [])"
| "apply_files visual (f # fs) err =
     (case apply_file visual f err of
        (f', err', ev) \<Rightarrow>
          (case apply_files visual fs err' of
             (fs', err'', evs) \<Rightarrow> (f' # fs', err'', ev @ evs)))"

section \<open>Lexer (sam.c)\<close>

text \<open>The character classes of util.h and the delimiter set of sam.c, on bytes.\<close>

definition ISSPACE :: "char \<Rightarrow> bool" where
  "ISSPACE c \<longleftrightarrow> c = CHR '' '' \<or> c = CHR 0x0A \<or> c = CHR 0x09 \<or> c = CHR 0x0D"

definition ISDIGIT :: "char \<Rightarrow> bool" where
  "ISDIGIT c \<longleftrightarrow> (of_char (CHR ''0'') :: nat) \<le> of_char c \<and> (of_char c :: nat) \<le> of_char (CHR ''9'')"

definition IS_SAM_DELIMITER :: "char \<Rightarrow> bool" where
  "IS_SAM_DELIMITER cp \<longleftrightarrow>
     cp = CHR ''/'' \<or> cp = CHR ''!'' \<or> cp = CHR '';'' \<or> cp = CHR '':'' \<or> cp = CHR ''%'' \<or>
     cp = CHR ''#'' \<or> cp = CHR ''?'' \<or> cp = CHR '','' \<or> cp = CHR ''.'' \<or> cp = CHR ''+'' \<or>
     cp = CHR ''-'' \<or> cp = CHR ''='' \<or> cp = CHR 0x27"

datatype SamTokenType =
    ST_INVALID
  | ST_DELIMITER
  | ST_GROUP_END
  | ST_GROUP_START
  | ST_NUMBER
  | ST_STRING

text \<open>
  \<open>SamToken\<close>: \<open>start\<close> points into the command line and is kept as the offset from
  the first byte of the line.
\<close>

record SamToken =
  tstart :: nat
  tlength :: nat
  ttype :: SamTokenType

text \<open>
  The slice \<open>s8 raw\<close> that \<open>sam_lex\<close> moves along the line: the offset of \<open>raw.data\<close>
  in the line and the \<open>raw.len\<close> bytes from there on.
\<close>

type_synonym s8 = "nat \<times> string"

text \<open>
  \<open>consume\<close>. Its \<open>ASSERT(raw.len >= count)\<close> is a trap instruction (util.h), so
  consuming more than is left ends the program: \<open>None\<close>.
\<close>

definition consume :: "s8 \<Rightarrow> nat \<Rightarrow> s8 option" where
  "consume raw n =
     (if n \<le> length (snd raw) then Some (fst raw + n, drop n (snd raw)) else None)"

text \<open>\<open>consume_digits\<close>: the count of leading digits never exceeds the length.\<close>

definition consume_digits :: "s8 \<Rightarrow> s8" where
  "consume_digits raw =
     (fst raw + length (takeWhile ISDIGIT (snd raw)), dropWhile ISDIGIT (snd raw))"

definition sam_token_push :: "SamToken list \<Rightarrow> SamToken \<Rightarrow> SamToken list" where
  "sam_token_push s tok = (if tlength tok > 0 then s @ [tok] else s)"

text \<open>\<open>sam_token_at\<close> appends a token of length 1 at \<open>raw.data\<close> when \<open>raw\<close> is not empty.\<close>

definition sam_token_at :: "SamToken list \<Rightarrow> SamTokenType \<Rightarrow> s8 \<Rightarrow> SamToken list" where
  "sam_token_at s ty raw =
     (if snd raw \<noteq> [] then s @ [\<lparr>tstart = fst raw, tlength = 1, ttype = ty\<rparr>] else s)"

definition fresh_accum :: "s8 \<Rightarrow> SamToken" where
  "fresh_accum raw = \<lparr>tstart = fst raw, tlength = 0, ttype = ST_STRING\<rparr>"

text \<open>
  The branch of \<open>sam_lex\<close> for \<open>{\<close> and for \<open>}\<close>: the accumulator is pushed, the group
  token is put at the brace, and \<open>raw = consume(raw, 1)\<close> is executed twice, as the source
  has it.
\<close>

definition lex_group :: "SamToken list \<Rightarrow> SamToken \<Rightarrow> SamTokenType \<Rightarrow> s8 \<Rightarrow> (SamToken list \<times> s8) option" where
  "lex_group s accum ty raw =
     (case consume raw 1 of
        None \<Rightarrow> None
      | Some raw1 \<Rightarrow>
          (case consume raw1 1 of
             None \<Rightarrow> None
           | Some raw2 \<Rightarrow> Some (sam_token_at (sam_token_push s accum) ty raw, raw2)))"

text \<open>
  The loop \<open>while (raw.len > 0)\<close> of \<open>sam_lex\<close> with the push after it. The arguments are
  the tokens pushed so far, the accumulator, and \<open>raw\<close> as offset and remaining bytes.
\<close>

function sam_lex_loop :: "SamToken list \<Rightarrow> SamToken \<Rightarrow> nat \<Rightarrow> string \<Rightarrow> SamToken list option" where
  "sam_lex_loop s accum pos [] = Some (sam_token_push s accum)"
| "sam_lex_loop s accum pos (cp # rest) =
     (if ISSPACE cp then
        sam_lex_loop (sam_token_push s accum) (fresh_accum (Suc pos, rest)) (Suc pos) rest
      else if ISDIGIT cp then
        (let raw' = consume_digits (pos, cp # rest);
             tok = \<lparr>tstart = pos, tlength = fst raw' - pos, ttype = ST_NUMBER\<rparr>
         in sam_lex_loop (sam_token_push s accum @ [tok]) (fresh_accum raw') (fst raw') (snd raw'))
      else if cp = CHR ''{'' then
        (case lex_group s accum ST_GROUP_START (pos, cp # rest) of
           None \<Rightarrow> None
         | Some (s', raw') \<Rightarrow> sam_lex_loop s' (fresh_accum raw') (fst raw') (snd raw'))
      else if cp = CHR ''}'' then
        (case lex_group s accum ST_GROUP_END (pos, cp # rest) of
           None \<Rightarrow> None
         | Some (s', raw') \<Rightarrow> sam_lex_loop s' (fresh_accum raw') (fst raw') (snd raw'))
      else if (cp = CHR ''>'' \<or> cp = CHR ''<'' \<or> cp = CHR ''|'') \<and> tlength accum = 0 then
        sam_lex_loop (sam_token_push s (accum\<lparr>tlength := tlength accum + 1\<rparr>))
          (fresh_accum (Suc pos, rest)) (Suc pos) rest
      else if IS_SAM_DELIMITER cp then
        sam_lex_loop (sam_token_at (sam_token_push s accum) ST_DELIMITER (pos, cp # rest))
          (fresh_accum (Suc pos, rest)) (Suc pos) rest
      else
        sam_lex_loop s (accum\<lparr>tlength := tlength accum + 1\<rparr>) (Suc pos) rest)"
  by pat_completeness auto
termination
proof (relation "measure (\<lambda>(s, accum, pos, raw). length raw)")
  show "wf (measure (\<lambda>(s, accum, pos, raw). length raw))" by simp
next
  fix s accum pos cp rest raw' tok
  assume "\<not> ISSPACE cp" "ISDIGIT cp" "raw' = consume_digits (pos, cp # rest)"
  then show "((sam_token_push s accum @ [tok], fresh_accum raw', fst raw', snd raw'),
              s, accum, pos, cp # rest) \<in> measure (\<lambda>(s, accum, pos, raw). length raw)"
    using length_dropWhile_le[of ISDIGIT rest] by (simp add: consume_digits_def)
qed (auto simp: lex_group_def consume_def split: option.splits if_splits)

definition sam_lex :: "string \<Rightarrow> SamToken list option" where
  "sam_lex line = sam_lex_loop [] (fresh_accum (0, line)) 0 line"

text \<open>The bytes a token denotes, and the bytes of a token stream in emission order.\<close>

definition token_bytes :: "string \<Rightarrow> SamToken \<Rightarrow> string" where
  "token_bytes line tok = take (tlength tok) (drop (tstart tok) line)"

definition stream_bytes :: "string \<Rightarrow> SamToken list \<Rightarrow> string" where
  "stream_bytes line toks = concat (map (token_bytes line) toks)"

definition without_space :: "string \<Rightarrow> string" where
  "without_space line = filter (\<lambda>c. \<not> ISSPACE c) line"

section \<open>Validation of the token stream (sam.c)\<close>

text \<open>
  The loop of \<open>validate_token_stream\<close>, which runs while \<open>result\<close> holds: \<open>result\<close> and
  \<open>nesting\<close> when it ends.
\<close>

fun validate_loop :: "bool \<Rightarrow> int \<Rightarrow> SamToken list \<Rightarrow> bool \<times> int" where
  "validate_loop result nesting [] = (result, nesting)"
| "validate_loop result nesting (t # ts) =
     (if result then
        (case ttype t of
           ST_INVALID \<Rightarrow> validate_loop False nesting ts
         | ST_GROUP_START \<Rightarrow> validate_loop result (nesting + 1) ts
         | ST_GROUP_END \<Rightarrow> validate_loop result (nesting - 1) ts
         | _ \<Rightarrow> validate_loop result nesting ts)
      else (result, nesting))"

text \<open>
  \<open>validate_token_stream\<close>: after the loop, \<open>result = nesting == 0\<close> replaces whatever
  the loop left in \<open>result\<close>.
\<close>

definition validate_token_stream :: "SamToken list \<Rightarrow> bool" where
  "validate_token_stream sts =
     (case validate_loop (length sts > 0) 0 sts of
        (result, nesting) \<Rightarrow> nesting = 0)"


text \<open>
  The state of \<open>sam_lex\<close> at the head of its loop, for a line: \<open>raw\<close> is the rest of the
  line from offset \<open>pos\<close>, the accumulator ends at \<open>pos\<close>, and the tokens pushed so far
  with the accumulator spell the bytes before \<open>pos\<close> without their whitespace.
\<close>

definition lex_inv :: "string \<Rightarrow> SamToken list \<Rightarrow> SamToken \<Rightarrow> nat \<Rightarrow> string \<Rightarrow> bool" where
  "lex_inv line s accum pos raw \<longleftrightarrow>
     pos \<le> length line \<and> raw = drop pos line \<and>
     tstart accum + tlength accum = pos \<and>
     stream_bytes line s @ token_bytes line accum = without_space (take pos line)"

section \<open>User commands (vis-cmds.c)\<close>

text \<open>
  Modelled from the spec: the map of map.c (\<open>map_get\<close>, \<open>map_put\<close>, \<open>map_delete\<close>) is
  not among the sources at hand. It is taken as a finite map from names to values:
  \<open>map_get\<close> returns the value stored under exactly that key or \<open>NULL\<close>, \<open>map_put\<close>
  stores a value under a key that is not yet bound and reports whether it did,
  \<open>map_delete\<close> removes the binding of a key and returns the value removed, \<open>NULL\<close>
  when there was none. A map that was never allocated has no entries.
\<close>

definition map_get :: "(string \<rightharpoonup> 'v) \<Rightarrow> string \<Rightarrow> 'v option" where
  "map_get m k = m k"

definition map_put :: "(string \<rightharpoonup> 'v) \<Rightarrow> string \<Rightarrow> 'v \<Rightarrow> (string \<rightharpoonup> 'v) \<times> bool" where
  "map_put m k v = (if m k = None then (m(k \<mapsto> v), True) else (m, False))"

definition map_delete :: "(string \<rightharpoonup> 'v) \<Rightarrow> string \<Rightarrow> (string \<rightharpoonup> 'v) \<times> 'v option" where
  "map_delete m k = (m(k := None), m k)"

text \<open>
  The flag bits of \<open>CommandDef\<close> and the handler functions of sam.c. A definition
  carries a set of flags, written as the list of the bits or-ed together.
\<close>

datatype CmdFlag =
    CMD_CMD
  | CMD_REGEX
  | CMD_REGEX_DEFAULT
  | CMD_COUNT
  | CMD_TEXT
  | CMD_ADDRESS_NONE
  | CMD_ADDRESS_POS
  | CMD_ADDRESS_LINE
  | CMD_ADDRESS_AFTER
  | CMD_ADDRESS_ALL
  | CMD_ADDRESS_ALL_1CURSOR
  | CMD_SHELL
  | CMD_FORCE
  | CMD_ARGV
  | CMD_ONCE
  | CMD_LOOP
  | CMD_DESTRUCTIVE
  | CMD_WIN

datatype SamCommandFn =
    command_insert
  | command_append
  | command_change
  | command_delete
  | command_guard_fn
  | command_extract
  | command_print
  | command_files
  | command_pipein
  | command_pipeout
  | command_filter
  | command_launch
  | command_substitute
  | command_write
  | command_read
  | command_edit
  | command_quit
  | command_cd
  | command_set
  | command_open
  | command_qall
  | command_split
  | command_vsplit
  | command_new
  | command_vnew
  | command_wq
  | command_earlier_later
  | command_help
  | command_map
  | command_unmap
  | command_langmap
  | command_user

record CommandDef =
  name :: string
  fn :: SamCommandFn
  flags :: "CmdFlag list"

definition has_flag :: "CommandDef \<Rightarrow> CmdFlag \<Rightarrow> bool" where
  "has_flag d f \<longleftrightarrow> f \<in> set (flags d)"

text \<open>
  \<open>CmdUser\<close>: the definition made for a registered command, with the function and the
  data pointer given at registration, each kept as a number.
\<close>

record CmdUser =
  definition_of :: CommandDef
  func :: nat
  udata :: nat

text \<open>The two maps of \<open>Vis\<close> that registration touches.\<close>

record VisCmds =
  cmds :: "string \<rightharpoonup> CommandDef"
  usercmds :: "string \<rightharpoonup> CmdUser"

text \<open>
  \<open>vis_cmd_register\<close>. A \<open>NULL\<close> name is \<open>None\<close>. The arena allocations and the
  allocation of the user map are taken to succeed.
\<close>

definition vis_cmd_register :: "VisCmds \<Rightarrow> string option \<Rightarrow> nat \<Rightarrow> nat \<Rightarrow> VisCmds \<times> bool" where
  "vis_cmd_register vis nm dat f =
     (case nm of
        None \<Rightarrow> (vis, False)
      | Some n \<Rightarrow>
          let cmd = \<lparr>definition_of =
                       \<lparr>name = n, fn = command_user,
                        flags = [CMD_ARGV, CMD_FORCE, CMD_ONCE, CMD_ADDRESS_ALL]\<rparr>,
                     func = f, udata = dat\<rparr>
          in (case map_put (cmds vis) n (definition_of cmd) of
                (c', False) \<Rightarrow> (vis, False)
              | (c', True) \<Rightarrow>
                  (case map_put (usercmds vis) n cmd of
                     (u', True) \<Rightarrow> (vis\<lparr>cmds := c', usercmds := u'\<rparr>, True)
                   | (u', False) \<Rightarrow> (vis\<lparr>cmds := fst (map_delete c' n)\<rparr>, False))))"

text \<open>
  \<open>vis_cmd_unregister\<close>: \<open>cmd && map_delete(vis->cmds, name) && map_delete(vis->usercmds,
  name)\<close>, evaluated from the left and stopping at the first \<open>NULL\<close>.
\<close>

definition vis_cmd_unregister :: "VisCmds \<Rightarrow> string option \<Rightarrow> VisCmds \<times> bool" where
  "vis_cmd_unregister vis nm =
     (case nm of
        None \<Rightarrow> (vis, True)
      | Some n \<Rightarrow>
          (case map_get (usercmds vis) n of
             None \<Rightarrow> (vis, False)
           | Some cmd \<Rightarrow>
               (case map_delete (cmds vis) n of
                  (c', None) \<Rightarrow> (vis\<lparr>cmds := c'\<rparr>, False)
                | (c', Some d) \<Rightarrow>
                    (case map_delete (usercmds vis) n of
                       (u', None) \<Rightarrow> (vis\<lparr>cmds := c', usercmds := u'\<rparr>, False)
                     | (u', Some x) \<Rightarrow> (vis\<lparr>cmds := c', usercmds := u'\<rparr>, True)))))"

section \<open>Addresses (sam.c)\<close>

text \<open>
  \<open>AddressSide\<close>: the tag with the member of the union it selects. A compiled regular
  expression and a mark are kept as numbers.
\<close>

datatype AddressSide =
    AT_INVALID
  | AT_BYTE size_t
  | AT_CHARACTER char
  | AT_LINE size_t
  | AT_MARK nat
  | AT_REGEX_BACKWARD nat
  | AT_REGEX_FORWARD nat

record Address =
  left :: AddressSide
  right :: AddressSide
  delimeter :: char

text \<open>
  What address evaluation asks of the file: the text functions of text.h and
  text-motions.h, the mark array of the file, the regular expression searches and
  \<open>text_range_union\<close>, none of whose bodies is among the sources at hand. They are
  parameters of the evaluation. \<open>mark_get m n\<close> is the position of mark \<open>m\<close> for
  selection number \<open>n\<close>, \<open>None\<close> when the array holds no region there;
  \<open>text_byte_get\<close> is \<open>None\<close> outside the text.
\<close>

record FileOps =
  text_size :: size_t
  text_pos_by_lineno :: "size_t \<Rightarrow> size_t"
  text_lineno_by_pos :: "size_t \<Rightarrow> size_t"
  text_line_next :: "size_t \<Rightarrow> size_t"
  text_byte_get :: "size_t \<Rightarrow> char option"
  mark_get :: "nat \<Rightarrow> nat \<Rightarrow> size_t option"
  text_object_search_backward :: "size_t \<Rightarrow> nat \<Rightarrow> Filerange"
  text_object_search_forward :: "size_t \<Rightarrow> nat \<Rightarrow> Filerange"
  text_range_union :: "Filerange \<Rightarrow> Filerange \<Rightarrow> Filerange"

text \<open>
  \<open>evaluate_address_side\<close>. The selection is given by its number, \<open>None\<close> for \<open>NULL\<close>.
  \<open>ASSERT(0)\<close> on an omitted side is a trap: \<open>None\<close>.
\<close>

definition evaluate_address_side ::
  "AddressSide \<Rightarrow> FileOps \<Rightarrow> nat option \<Rightarrow> Filerange \<Rightarrow> Filerange option" where
  "evaluate_address_side as file sl rng =
     (case as of
        AT_INVALID \<Rightarrow> None
      | AT_BYTE n \<Rightarrow> Some \<lparr>rstart = n, rend = n\<rparr>
      | AT_CHARACTER c \<Rightarrow>
          Some (if c = CHR ''$'' then \<lparr>rstart = text_size file, rend = text_size file\<rparr>
                else if c = CHR ''.'' then rng
                else if c = CHR ''%'' then text_range_new 0 (text_size file)
                else text_range_empty)
      | AT_LINE n \<Rightarrow>
          Some (if n \<noteq> 0
                then text_range_new (text_pos_by_lineno file n)
                       (text_line_next file (text_pos_by_lineno file n))
                else \<lparr>rstart = 0, rend = 0\<rparr>)
      | AT_MARK m \<Rightarrow>
          (let pos = (case mark_get file m (case sl of Some n \<Rightarrow> n | None \<Rightarrow> 0) of
                        Some p \<Rightarrow> p
                      | None \<Rightarrow> EPOS)
           in Some \<lparr>rstart = pos, rend = pos\<rparr>)
      | AT_REGEX_BACKWARD re \<Rightarrow> Some (text_object_search_backward file (rstart rng) re)
      | AT_REGEX_FORWARD re \<Rightarrow> Some (text_object_search_forward file (rend rng) re))"

text \<open>The two groups of cases of \<open>evaluate_address\<close>.\<close>

definition evaluate_relative :: "Address \<Rightarrow> FileOps \<Rightarrow> nat option \<Rightarrow> Filerange \<Rightarrow> Filerange option" where
  "evaluate_relative addr file sl rng =
     (case (if right addr \<noteq> AT_INVALID then evaluate_address_side (right addr) file sl rng
            else Some \<lparr>rstart = 0, rend = 0\<rparr>) of
        None \<Rightarrow> None
      | Some r \<Rightarrow>
          let line =
            (if delimeter addr = CHR ''+'' then
               let offset = (if rend r \<noteq> EPOS then rend r else 1);
                   e = (if rstart rng < rend rng \<and> text_byte_get file (rend rng - 1) = Some (CHR 0x0A)
                        then rend rng - 1 else rend rng)
               in text_pos_by_lineno file (text_lineno_by_pos file e + offset)
             else
               let offset = (if rstart r \<noteq> EPOS then rstart r else 1);
                   line = text_lineno_by_pos file (rstart rng)
               in if offset < line then text_pos_by_lineno file (line - offset) else 0)
          in Some (text_range_new line (text_line_next file line)))"

definition evaluate_union :: "Address \<Rightarrow> FileOps \<Rightarrow> nat option \<Rightarrow> Filerange \<Rightarrow> Filerange option" where
  "evaluate_union addr file sl rng =
     (case (if left addr \<noteq> AT_INVALID then evaluate_address_side (left addr) file sl rng
            else Some \<lparr>rstart = 0, rend = 0\<rparr>) of
        None \<Rightarrow> None
      | Some l \<Rightarrow>
          let rng' = (if delimeter addr = CHR '';'' then l else rng)
          in (case (if right addr \<noteq> AT_INVALID
                    then evaluate_address_side (right addr) file sl rng'
                    else Some \<lparr>rstart = text_size file, rend = text_size file\<rparr>) of
                None \<Rightarrow> None
              | Some r \<Rightarrow> Some (text_range_union file l r)))"

text \<open>\<open>evaluate_address\<close>: the switch on the delimiter; any other delimiter gives the empty range.\<close>

definition evaluate_address :: "Address \<Rightarrow> FileOps \<Rightarrow> nat option \<Rightarrow> Filerange \<Rightarrow> Filerange option" where
  "evaluate_address addr file sl rng =
     (if delimeter addr = CHR ''+'' \<or> delimeter addr = CHR ''-'' then
        evaluate_relative addr file sl rng
      else if delimeter addr = CHR '','' \<or> delimeter addr = CHR '';'' then
        evaluate_union addr file sl rng
      else Some text_range_empty)"

section \<open>Counts and the guard commands (sam.c)\<close>

record Count =
  cstart :: int
  cend :: int
  cmod :: bool

text \<open>
  The remainder of C, which truncates the quotient towards zero.
\<close>

definition c_rem :: "int \<Rightarrow> int \<Rightarrow> int" where
  "c_rem a b = a - b * (sgn a * sgn b * (\<bar>a\<bar> div \<bar>b\<bar>))"

text \<open>The fields of \<open>Command\<close> that the guard reads.\<close>

record Command =
  cdefinition :: CommandDef
  regex :: "nat option"
  ccount :: Count
  iteration :: int

definition count_evaluate :: "Command \<Rightarrow> bool" where
  "count_evaluate cmd =
     (if cmod (ccount cmd) then
        (if cstart (ccount cmd) \<noteq> 0 then c_rem (iteration cmd) (cstart (ccount cmd)) = 0 else True)
      else cstart (ccount cmd) \<le> iteration cmd \<and> iteration cmd \<le> cend (ccount cmd))"

text \<open>
  What \<open>command_guard\<close> calls: \<open>text_search_range_forward\<close> on the text of the window's
  file (the first capture when the pattern is found in the \<open>len\<close> bytes from \<open>pos\<close>,
  \<open>None\<close> when it is not), \<open>sam_execute\<close> on the nested command, and
  \<open>view_selections_dispose_force\<close> on the selection. The last two act on the rest of the
  editor, a state of any type.
\<close>

record 'w GuardOps =
  text_search_range_forward :: "size_t \<Rightarrow> size_t \<Rightarrow> nat \<Rightarrow> Filerange option"
  sam_execute_nested :: "Filerange \<Rightarrow> 'w \<Rightarrow> bool \<times> 'w"
  view_selections_dispose_force :: "'w \<Rightarrow> 'w"

text \<open>The local \<open>match\<close> of \<open>command_guard\<close>.\<close>

definition guard_match :: "'w GuardOps \<Rightarrow> Command \<Rightarrow> Filerange \<Rightarrow> bool" where
  "guard_match ops cmd rng =
     (case regex cmd of
        None \<Rightarrow> True
      | Some re \<Rightarrow>
          (case text_search_range_forward ops (rstart rng) (text_range_size rng) re of
             Some cap \<Rightarrow> rstart cap < rend rng
           | None \<Rightarrow> False))"

text \<open>
  \<open>command_guard\<close>, for a window that is there (\<open>ASSERT(win)\<close>). The result is the
  function's result and the state of the editor afterwards.
\<close>

definition command_guard :: "'w GuardOps \<Rightarrow> Command \<Rightarrow> Filerange \<Rightarrow> 'w \<Rightarrow> bool \<times> 'w" where
  "command_guard ops cmd rng w =
     (if (count_evaluate cmd \<and> guard_match ops cmd rng)
         \<noteq> (take 1 (name (cdefinition cmd)) = ''v'')
      then sam_execute_nested ops rng w
      else (True, view_selections_dispose_force ops w))"

section \<open>Sample collaborators for the concrete runs\<close>

text \<open>
  A file of 20 bytes in one line, with no marks and no regular expression that
  matches, and the union of two ranges as the least range that holds both.
\<close>

definition sample_file :: FileOps where
  "sample_file =
     \<lparr>text_size = 20,
      text_pos_by_lineno = (\<lambda>n. if n \<le> 1 then 0 else 20),
      text_lineno_by_pos = (\<lambda>p. 1),
      text_line_next = (\<lambda>p. 20),
      text_byte_get = (\<lambda>p. if p < 20 then Some (CHR ''a'') else None),
      mark_get = (\<lambda>m n. None),
      text_object_search_backward = (\<lambda>p re. text_range_empty),
      text_object_search_forward = (\<lambda>p re. text_range_empty),
      text_range_union =
        (\<lambda>a b. \<lparr>rstart = min (rstart a) (rstart b), rend = max (rend a) (rend b)\<rparr>)\<rparr>"

text \<open>
  An editor state that only records the calls made: the nested command succeeds and
  leaves the mark \<open>sam_execute\<close>, disposing the selection leaves the mark \<open>dispose\<close>.
  The pattern is found nowhere.
\<close>

definition sample_guard_ops :: "string list GuardOps" where
  "sample_guard_ops =
     \<lparr>text_search_range_forward = (\<lambda>pos n re. None),
      sam_execute_nested = (\<lambda>r w. (True, w @ [''sam_execute''])),
      view_selections_dispose_force = (\<lambda>w. w @ [''dispose''])\<rparr>"

text \<open>The command \<open>v2/pat/\<close> in its first iteration: the count \<open>[2,2]\<close> is not met.\<close>

definition sample_v_command :: Command where
  "sample_v_command =
     \<lparr>cdefinition = \<lparr>name = ''v'', fn = command_guard_fn, flags = [CMD_COUNT, CMD_REGEX, CMD_CMD]\<rparr>,
      regex = Some 0,
      ccount = \<lparr>cstart = 2, cend = 2, cmod = False\<rparr>,
      iteration = 1\<rparr>"

text \<open>The command \<open>g\<close> without a pattern and with the default count, in its first iteration.\<close>

definition sample_g_command :: Command where
  "sample_g_command =
     \<lparr>cdefinition =
        \<lparr>name = ''g'', fn = command_guard_fn, flags = [CMD_COUNT, CMD_REGEX, CMD_CMD, CMD_WIN]\<rparr>,
      regex = None,
      ccount = \<lparr>cstart = 0, cend = 2147483647, cmod = False\<rparr>,
      iteration = 1\<rparr>"

text \<open>The address \<open>#3,\<close> with its right side omitted.\<close>

definition sample_address :: Address where
  "sample_address = \<lparr>left = AT_BYTE 3, right = AT_INVALID, delimeter = CHR '',''\<rparr>"

section \<open>The command table and the executor (sam.c)\<close>

definition command_definition_table :: "CommandDef list" where
  "command_definition_table =
     [\<lparr>name = ''a'', fn = command_append, flags = [CMD_TEXT, CMD_WIN]\<rparr>,
      \<lparr>name = ''c'', fn = command_change, flags = [CMD_TEXT, CMD_WIN]\<rparr>,
      \<lparr>name = ''d'', fn = command_delete, flags = [CMD_WIN]\<rparr>,
      \<lparr>name = ''g'', fn = command_guard_fn, flags = [CMD_COUNT, CMD_REGEX, CMD_CMD, CMD_WIN]\<rparr>,
      \<lparr>name = ''i'', fn = command_insert, flags = [CMD_TEXT, CMD_WIN]\<rparr>,
      \<lparr>name = ''p'', fn = command_print, flags = [CMD_WIN]\<rparr>,
      \<lparr>name = ''s'', fn = command_substitute, flags = [CMD_SHELL]\<rparr>,
      \<lparr>name = ''v'', fn = command_guard_fn, flags = [CMD_COUNT, CMD_REGEX, CMD_CMD]\<rparr>,
      \<lparr>name = ''x'', fn = command_extract,
        flags = [CMD_CMD, CMD_REGEX, CMD_REGEX_DEFAULT, CMD_ADDRESS_ALL_1CURSOR, CMD_LOOP, CMD_WIN]\<rparr>,
      \<lparr>name = ''y'', fn = command_extract,
        flags = [CMD_CMD, CMD_REGEX, CMD_ADDRESS_ALL_1CURSOR, CMD_LOOP, CMD_WIN]\<rparr>,
      \<lparr>name = ''X'', fn = command_files,
        flags = [CMD_CMD, CMD_REGEX, CMD_REGEX_DEFAULT, CMD_ADDRESS_NONE, CMD_ONCE]\<rparr>,
      \<lparr>name = ''Y'', fn = command_files,
        flags = [CMD_CMD, CMD_REGEX, CMD_ADDRESS_NONE, CMD_ONCE]\<rparr>,
      \<lparr>name = ''>'', fn = command_pipeout, flags = [CMD_SHELL, CMD_ADDRESS_LINE, CMD_WIN]\<rparr>,
      \<lparr>name = ''<'', fn = command_pipein, flags = [CMD_SHELL, CMD_ADDRESS_POS, CMD_WIN]\<rparr>,
      \<lparr>name = ''|'', fn = command_filter, flags = [CMD_SHELL, CMD_WIN]\<rparr>,
      \<lparr>name = ''!'', fn = command_launch,
        flags = [CMD_SHELL, CMD_ONCE, CMD_ADDRESS_NONE, CMD_WIN]\<rparr>,
      \<lparr>name = ''w'', fn = command_write,
        flags = [CMD_ARGV, CMD_FORCE, CMD_ONCE, CMD_ADDRESS_ALL, CMD_WIN]\<rparr>,
      \<lparr>name = ''r'', fn = command_read, flags = [CMD_ARGV, CMD_ADDRESS_AFTER]\<rparr>,
      \<lparr>name = ''e'', fn = command_edit,
        flags = [CMD_ARGV, CMD_FORCE, CMD_ONCE, CMD_ADDRESS_NONE, CMD_DESTRUCTIVE, CMD_WIN]\<rparr>,
      \<lparr>name = ''q'', fn = command_quit,
        flags = [CMD_ARGV, CMD_FORCE, CMD_ONCE, CMD_ADDRESS_NONE, CMD_DESTRUCTIVE]\<rparr>,
      \<lparr>name = ''cd'', fn = command_cd, flags = [CMD_ARGV, CMD_ONCE, CMD_ADDRESS_NONE]\<rparr>,
      \<lparr>name = ''help'', fn = command_help, flags = [CMD_ARGV, CMD_ONCE, CMD_ADDRESS_NONE]\<rparr>,
      \<lparr>name = ''map'', fn = command_map,
        flags = [CMD_ARGV, CMD_FORCE, CMD_ONCE, CMD_ADDRESS_NONE]\<rparr>,
      \<lparr>name = ''map-window'', fn = command_map,
        flags = [CMD_ARGV, CMD_FORCE, CMD_ONCE, CMD_ADDRESS_NONE]\<rparr>,
      \<lparr>name = ''unmap'', fn = command_unmap, flags = [CMD_ARGV, CMD_ONCE, CMD_ADDRESS_NONE]\<rparr>,
      \<lparr>name = ''unmap-window'', fn = command_unmap,
        flags = [CMD_ARGV, CMD_ONCE, CMD_ADDRESS_NONE, CMD_WIN]\<rparr>,
      \<lparr>name = ''langmap'', fn = command_langmap,
        flags = [CMD_ARGV, CMD_FORCE, CMD_ONCE, CMD_ADDRESS_NONE]\<rparr>,
      \<lparr>name = ''new'', fn = command_new, flags = [CMD_ARGV, CMD_ONCE, CMD_ADDRESS_NONE]\<rparr>,
      \<lparr>name = ''open'', fn = command_open, flags = [CMD_ARGV, CMD_ONCE, CMD_ADDRESS_NONE]\<rparr>,
      \<lparr>name = ''qall'', fn = command_qall,
        flags = [CMD_ARGV, CMD_FORCE, CMD_ONCE, CMD_ADDRESS_NONE, CMD_DESTRUCTIVE]\<rparr>,
      \<lparr>name = ''set'', fn = command_set, flags = [CMD_ARGV, CMD_ONCE, CMD_ADDRESS_NONE]\<rparr>,
      \<lparr>name = ''split'', fn = command_split,
        flags = [CMD_ARGV, CMD_ONCE, CMD_ADDRESS_NONE, CMD_WIN]\<rparr>,
      \<lparr>name = ''vnew'', fn = command_vnew, flags = [CMD_ARGV, CMD_ONCE, CMD_ADDRESS_NONE]\<rparr>,
      \<lparr>name = ''vsplit'', fn = command_vsplit,
        flags = [CMD_ARGV, CMD_ONCE, CMD_ADDRESS_NONE, CMD_WIN]\<rparr>,
      \<lparr>name = ''wq'', fn = command_wq,
        flags = [CMD_ARGV, CMD_FORCE, CMD_ONCE, CMD_ADDRESS_ALL, CMD_DESTRUCTIVE, CMD_WIN]\<rparr>,
      \<lparr>name = ''earlier'', fn = command_earlier_later,
        flags = [CMD_ARGV, CMD_ONCE, CMD_ADDRESS_NONE, CMD_WIN]\<rparr>,
      \<lparr>name = ''later'', fn = command_earlier_later,
        flags = [CMD_ARGV, CMD_ONCE, CMD_ADDRESS_NONE, CMD_WIN]\<rparr>]"

text \<open>The names of the definitions of the table that carry a flag, in table order.\<close>

definition names_with_flag :: "CmdFlag \<Rightarrow> string list" where
  "names_with_flag f = map name (filter (\<lambda>d. has_flag d f) command_definition_table)"

text \<open>
  The part of \<open>Vis\<close> that \<open>execute_token_stream\<close> reads and writes itself
  (\<open>sam.should_exit\<close> and the messages appended to \<open>sam.log\<close>), and the rest of the
  editor, a state of any type that only the command handlers act on.
\<close>

record 'w SamVis =
  should_exit :: bool
  sam_log :: "string list"
  world :: 'w

text \<open>
  What \<open>execute_token_stream\<close> calls. Reading the token stream only moves its read
  index forward, so each function that reads tokens gets the tokens not yet read and
  reports how many of them it has popped.
  \<^item> \<open>parse_address\<close>: the address and the number of tokens popped.
  \<^item> \<open>sam_token_join_command_name\<close>: the joined name token and the number of tokens popped
    after the first.
  \<^item> \<open>lookup_command_definition\<close>: the closest definition in the command map, \<open>None\<close>
    for \<open>NULL\<close>.
  \<^item> \<open>execute_command\<close>: parses the arguments of the command and calls its handler for
    the selections; the result, the number of tokens popped and the editor afterwards.
\<close>

record 'w ExecOps =
  parse_address :: "SamToken list \<Rightarrow> Address \<times> nat"
  sam_token_join_command_name :: "SamToken \<Rightarrow> SamToken list \<Rightarrow> SamToken \<times> nat"
  lookup_command_definition :: "SamToken \<Rightarrow> CommandDef option"
  execute_command :: "CommandDef \<Rightarrow> Address \<Rightarrow> SamToken list \<Rightarrow> 'w \<Rightarrow> bool \<times> nat \<times> 'w"

text \<open>
  The local variables of \<open>execute_token_stream\<close>. \<open>command\<close> is kept as the chain of
  its \<open>prev\<close> pointers, each command by its address: the head is the current command.
\<close>

record ExecLocals =
  did_looping_command :: bool
  nesting_level :: int
  command :: "Address list"

definition zero_address :: Address where
  "zero_address = \<lparr>left = AT_INVALID, right = AT_INVALID, delimeter = CHR 0x00\<rparr>"

text \<open>
  A run ends by returning or in the trap of a failed \<open>ASSERT\<close>; either way it has
  brought the editor into some state.
\<close>

datatype 'a outcome = Returned 'a | Trapped 'a

text \<open>
  The case \<open>ST_STRING\<close> of the loop for a name that was found: the editor and
  \<open>did_looping_command\<close> afterwards, and the tokens left.
\<close>

definition dispatch ::
  "'w ExecOps \<Rightarrow> CommandDef \<Rightarrow> ExecLocals \<Rightarrow> SamToken list \<Rightarrow> 'w SamVis
     \<Rightarrow> ExecLocals \<times> SamToken list \<times> 'w SamVis" where
  "dispatch ops d loc sts vis =
     (let (vis', sts') =
        (if did_looping_command loc \<and> has_flag d CMD_DESTRUCTIVE then
           (vis\<lparr>should_exit := True\<rparr>, sts)
         else
           (case execute_command ops d (hd (command loc)) sts (world vis) of
              (result, n, w') \<Rightarrow> (vis\<lparr>should_exit := \<not> result, world := w'\<rparr>, drop n sts)))
      in (loc\<lparr>did_looping_command := did_looping_command loc \<or> has_flag d CMD_LOOP\<rparr>,
          sts', vis'))"

text \<open>
  The loop \<open>while (sts->count != sts->read_index && !vis->sam.should_exit)\<close>, on the
  tokens not yet read.
\<close>

function exec_loop ::
  "'w ExecOps \<Rightarrow> ExecLocals \<Rightarrow> SamToken list \<Rightarrow> 'w SamVis
     \<Rightarrow> (ExecLocals \<times> SamToken list \<times> 'w SamVis) outcome" where
  "exec_loop ops loc [] vis = Returned (loc, [], vis)"
| "exec_loop ops loc (token # sts) vis =
     (if should_exit vis then Returned (loc, token # sts, vis)
      else
        (case ttype token of
           ST_GROUP_START \<Rightarrow>
             exec_loop ops (loc\<lparr>command := zero_address # command loc\<rparr>) sts vis
         | ST_GROUP_END \<Rightarrow>
             (if tl (command loc) = [] then
                Trapped (loc\<lparr>nesting_level := nesting_level loc - 1, command := []\<rparr>, sts, vis)
              else
                exec_loop ops
                  (loc\<lparr>nesting_level := nesting_level loc - 1, command := tl (command loc)\<rparr>)
                  sts vis)
         | ST_STRING \<Rightarrow>
             (case sam_token_join_command_name ops token sts of
                (joined, n) \<Rightarrow>
                  (case lookup_command_definition ops joined of
                     Some d \<Rightarrow>
                       (case dispatch ops d loc (drop n sts) vis of
                          (loc', sts', vis') \<Rightarrow> exec_loop ops loc' sts' vis')
                   | None \<Rightarrow>
                       exec_loop ops loc (drop n sts)
                         (vis\<lparr>should_exit := True,
                              sam_log := sam_log vis @ [''invalid command'']\<rparr>)))
         | _ \<Rightarrow> exec_loop ops loc sts (vis\<lparr>should_exit := True\<rparr>)))"
  by pat_completeness auto
termination
  by (relation "measure (\<lambda>(ops, loc, sts, vis). length sts)")
     (auto simp: dispatch_def Let_def split: if_splits prod.splits)

text \<open>
  \<open>execute_token_stream\<close>: \<open>ASSERT(sts->count)\<close>, the address, the loop, the message
  about tokens left over and \<open>ASSERT(nesting_level == 0)\<close>.
\<close>

definition execute_token_stream ::
  "'w ExecOps \<Rightarrow> SamToken list \<Rightarrow> 'w SamVis \<Rightarrow> 'w SamVis outcome" where
  "execute_token_stream ops sts vis =
     (if sts = [] then Trapped vis
      else
        (case parse_address ops sts of
           (addr, n) \<Rightarrow>
             (case exec_loop ops
                     \<lparr>did_looping_command = False, nesting_level = 0, command = [addr]\<rparr>
                     (drop n sts) vis of
                Trapped (loc, rest, vis') \<Rightarrow> Trapped vis'
              | Returned (loc, rest, vis') \<Rightarrow>
                  (let vis'' =
                     (if rest \<noteq> []
                      then vis'\<lparr>sam_log := sam_log vis' @ [''extra tokens at end of command'']\<rparr>
                      else vis')
                   in if nesting_level loc = 0 then Returned vis'' else Trapped vis''))))"

text \<open>
  The same collaborators with a record kept beside the editor: the definitions handed
  to \<open>execute_command\<close>, in the order of the calls.
\<close>

definition recording :: "'w ExecOps \<Rightarrow> ('w \<times> CommandDef list) ExecOps" where
  "recording ops =
     \<lparr>parse_address = parse_address ops,
      sam_token_join_command_name = sam_token_join_command_name ops,
      lookup_command_definition = lookup_command_definition ops,
      execute_command =
        (\<lambda>d addr sts (w, called).
           case execute_command ops d addr sts w of
             (result, n, w') \<Rightarrow> (result, n, (w', called @ [d])))\<rparr>"

definition outcome_state :: "'a outcome \<Rightarrow> 'a" where
  "outcome_state out = (case out of Returned x \<Rightarrow> x | Trapped x \<Rightarrow> x)"

text \<open>The definitions that were executed in a run that records them.\<close>

definition executed :: "('w \<times> CommandDef list) SamVis outcome \<Rightarrow> CommandDef list" where
  "executed out = snd (world (outcome_state out))"

text \<open>A run that records, with the record taken away again.\<close>

definition forget :: "('w \<times> CommandDef list) SamVis \<Rightarrow> 'w SamVis" where
  "forget vis = \<lparr>should_exit = should_exit vis, sam_log = sam_log vis, world = fst (world vis)\<rparr>"

definition forget_outcome ::
  "(ExecLocals \<times> SamToken list \<times> ('w \<times> CommandDef list) SamVis) outcome
     \<Rightarrow> (ExecLocals \<times> SamToken list \<times> 'w SamVis) outcome" where
  "forget_outcome out =
     (case out of
        Returned (loc, sts, vis) \<Rightarrow> Returned (loc, sts, forget vis)
      | Trapped (loc, sts, vis) \<Rightarrow> Trapped (loc, sts, forget vis))"

text \<open>No destructive command after a command that carries \<open>CMD_LOOP\<close>.\<close>

definition loop_then_safe :: "CommandDef \<Rightarrow> CommandDef \<Rightarrow> bool" where
  "loop_then_safe a b \<longleftrightarrow> (has_flag a CMD_LOOP \<longrightarrow> \<not> has_flag b CMD_DESTRUCTIVE)"

text \<open>
  Sample collaborators for a line without address (\<open>parse_address\<close> then reads no
  token and sets the delimiter \<open>;\<close>): a name is the bytes of its token in the line,
  looked up in the table by equality; every handler succeeds, reads no token and
  leaves the editor as it is.
\<close>

definition sample_exec_ops :: "string \<Rightarrow> unit ExecOps" where
  "sample_exec_ops line =
     \<lparr>parse_address = (\<lambda>sts. (zero_address\<lparr>delimeter := CHR '';''\<rparr>, 0)),
      sam_token_join_command_name = (\<lambda>token sts. (token, 0)),
      lookup_command_definition =
        (\<lambda>token. find (\<lambda>d. name d = token_bytes line token) command_definition_table),
      execute_command = (\<lambda>d addr sts w. (True, 0, w))\<rparr>"

definition sample_vis :: "(unit \<times> CommandDef list) SamVis" where
  "sample_vis = \<lparr>should_exit = False, sam_log = [], world = ((), [])\<rparr>"

text \<open>
  The record of a run so far is in order, and \<open>did_looping_command\<close> is set when it
  holds a command that carries \<open>CMD_LOOP\<close>.
\<close>

definition record_ok :: "ExecLocals \<Rightarrow> ('w \<times> CommandDef list) SamVis \<Rightarrow> bool" where
  "record_ok loc vis \<longleftrightarrow>
     sorted_wrt loop_then_safe (snd (world vis)) \<and>
     ((\<exists>a\<in>set (snd (world vis)). has_flag a CMD_LOOP) \<longrightarrow> did_looping_command loc)"

text \<open>The editor in the result of the loop.\<close>

definition final_vis :: "(ExecLocals \<times> SamToken list \<times> 'w SamVis) outcome \<Rightarrow> 'w SamVis" where
  "final_vis out = snd (snd (outcome_state out))"

section \<open>The apply phase as the specification words it\<close>

text \<open>
  The description of the apply phase, to compare the loop of \<open>sam_cmd\<close> with. An
  insert adds \<open>len * count\<close> to the offset, a delete takes the size of the recorded
  range from it.
\<close>

definition spec_change_delta :: "Change \<Rightarrow> size_t" where
  "spec_change_delta c =
     (if type_has_insert (ctype c) then len c * of_int (count c) else 0)
     - (if type_has_delete (ctype c) then rend (range c) - rstart (range c) else 0)"

text \<open>\<open>k\<close> copies of the first \<open>n\<close> bytes of \<open>d\<close>, put into the text at \<open>pos\<close>.\<close>

definition spec_insert_copies :: "string \<Rightarrow> size_t \<Rightarrow> string \<Rightarrow> size_t \<Rightarrow> nat \<Rightarrow> string" where
  "spec_insert_copies txt pos d n k =
     (if unat pos \<le> length txt
      then take (unat pos) txt @ concat (replicate k (take (unat n) d)) @ drop (unat pos) txt
      else txt)"

text \<open>
  One change applied to the text at its recorded range shifted by the offset: the
  deletion first, then the insertion at the shifted start.
\<close>

definition spec_edit_text :: "size_t \<Rightarrow> Change \<Rightarrow> string \<Rightarrow> string" where
  "spec_edit_text delta c txt =
     (let r = shift_range delta (range c);
          txt' = (if type_has_delete (ctype c) then text_delete_range txt r else txt)
      in if type_has_insert (ctype c)
         then spec_insert_copies txt' (rstart r) (data c) (len c) (nat (count c))
         else txt')"

text \<open>The changes in list order, the offset running along: the text and the offset at the end.\<close>

fun spec_apply :: "size_t \<Rightarrow> Change list \<Rightarrow> string \<Rightarrow> string \<times> size_t" where
  "spec_apply delta [] txt = (txt, delta)"
| "spec_apply delta (c # cs) txt =
     spec_apply (delta + spec_change_delta c) cs (spec_edit_text delta c txt)"

text \<open>The bytes a change inserts, and the bytes all changes of a list insert.\<close>

definition inserted_bytes :: "Change \<Rightarrow> nat" where
  "inserted_bytes c = (if type_has_insert (ctype c) then unat (len c) * nat (count c) else 0)"

definition total_inserted :: "Change list \<Rightarrow> nat" where
  "total_inserted cs = sum_list (map inserted_bytes cs)"

text \<open>
  The positions stay below \<open>EPOS\<close> while the changes are applied: no change ends so
  far up that the bytes inserted by all changes would move its end to \<open>EPOS\<close> or beyond.
\<close>

definition fits_address_space :: "Change list \<Rightarrow> bool" where
  "fits_address_space cs \<longleftrightarrow>
     list_all (\<lambda>c. unat (rend (range c)) + total_inserted cs < 2 ^ 64 - 1) cs"

definition counts_nonneg :: "Change list \<Rightarrow> bool" where
  "counts_nonneg cs \<longleftrightarrow> list_all (\<lambda>c. 0 \<le> count c) cs"

text \<open>What a change adds to the offset, as an unbounded integer.\<close>

definition ideal_delta :: "Change \<Rightarrow> int" where
  "ideal_delta c =
     int (inserted_bytes c)
     - (if type_has_delete (ctype c) then uint (rend (range c)) - uint (rstart (range c)) else 0)"

text \<open>
  A sample line of edits on the text \<open>alpha beta gamma\<close>: delete \<open>alpha \<close>, change
  \<open>beta\<close> to \<open>BETA!\<close>, append \<open>!\<close> twice at the end.
\<close>

definition sample_transcript :: Transcript where
  "sample_transcript =
     transcript_ops
       [OpDelete True 0 None \<lparr>rstart = 0, rend = 6\<rparr>,
        OpChange True 0 None \<lparr>rstart = 6, rend = 10\<rparr> ''BETA!'' 5 1,
        OpInsert True 0 None 16 ''!'' 1 2]
       transcript_zero"

section \<open>The walk of \<open>change_new\<close>\<close>

lemma skip_before_le: "skip_before s cs \<le> length cs"
  by (induction cs) auto

lemma skip_before_prefix:
  "c \<in> set (take (skip_before s cs) cs) \<Longrightarrow> rend (range c) \<le> s"
  by (induction cs) (auto split: if_splits)

lemma skip_before_stop:
  "skip_before s cs < length cs \<Longrightarrow> \<not> rend (range (cs ! skip_before s cs)) \<le> s"
  by (induction cs) auto

lemma walk_start_le: "walk_start t r \<le> length (changes t)"
  by (auto simp: walk_start_def split: option.splits)

lemma insert_index_le: "insert_index t r \<le> length (changes t)"
  using skip_before_le[of "rstart r" "drop (walk_start t r) (changes t)"] walk_start_le[of t r]
  by (simp add: insert_index_def)

lemma valid_start_le_end: "text_range_valid r \<Longrightarrow> rstart r \<le> rend r"
  by (simp add: text_range_valid_def)

lemma walk_start_prefix:
  assumes inv: "transcript_inv t" and c: "c \<in> set (take (walk_start t r) (changes t))"
  shows "rend (range c) \<le> rstart r"
proof (cases "latest t")
  case None
  with c show ?thesis by (simp add: walk_start_def)
next
  case (Some l)
  show ?thesis
  proof (cases "l < length (changes t) \<and> rend (range (changes t ! l)) \<le> rstart r")
    case False
    with c Some show ?thesis by (simp add: walk_start_def)
  next
    case True
    then have ws: "walk_start t r = Suc l" using Some by (simp add: walk_start_def)
    from c obtain i where i: "i < Suc l" "c = changes t ! i"
      using True unfolding ws in_set_conv_nth by auto
    show ?thesis
    proof (cases "i = l")
      case True
      with i \<open>l < length (changes t) \<and> _\<close> show ?thesis by simp
    next
      case False
      then have il: "i < l" using i by simp
      have "ends_before (changes t ! i) (changes t ! l)"
        using inv il True by (simp add: transcript_inv_def sorted_wrt_iff_nth_less)
      moreover have "text_range_valid (range (changes t ! l))"
        using inv True by (simp add: transcript_inv_def list_all_length)
      ultimately have "rend (range c) \<le> rend (range (changes t ! l))"
        using i valid_start_le_end[of "range (changes t ! l)"] by (simp add: ends_before_def)
      with True show ?thesis by (meson order_trans)
    qed
  qed
qed

lemma take_add_split: "take (a + b) xs = take a xs @ take b (drop a xs)"
  by (simp add: take_add)

lemma insert_index_prefix:
  assumes inv: "transcript_inv t" and c: "c \<in> set (take (insert_index t r) (changes t))"
  shows "rend (range c) \<le> rstart r"
proof -
  from c have "c \<in> set (take (walk_start t r) (changes t)) \<or>
      c \<in> set (take (skip_before (rstart r) (drop (walk_start t r) (changes t)))
                 (drop (walk_start t r) (changes t)))"
    by (simp add: insert_index_def take_add_split)
  then show ?thesis
    using walk_start_prefix[OF inv] skip_before_prefix by blast
qed

lemma insert_index_stop:
  assumes "insert_index t r < length (changes t)"
  shows "rstart r < rend (range (changes t ! insert_index t r))"
proof -
  let ?i = "walk_start t r" and ?cs = "changes t"
  let ?k = "skip_before (rstart r) (drop ?i ?cs)"
  have lt: "?k < length (drop ?i ?cs)"
    using assms by (simp add: insert_index_def) 
  have "\<not> rend (range (drop ?i ?cs ! ?k)) \<le> rstart r"
    by (rule skip_before_stop[OF lt])
  moreover have "drop ?i ?cs ! ?k = ?cs ! insert_index t r"
    using lt by (simp add: insert_index_def)
  ultimately show ?thesis by simp
qed

lemma insert_index_suffix:
  assumes inv: "transcript_inv t"
    and nc: "\<not> (insert_index t r < length (changes t) \<and>
                 rstart (range (changes t ! insert_index t r)) < rend r)"
    and c: "c \<in> set (drop (insert_index t r) (changes t))"
  shows "rend r \<le> rstart (range c)"
proof -
  let ?k = "insert_index t r" and ?cs = "changes t"
  from c obtain j where "j < length (drop ?k ?cs)" "c = drop ?k ?cs ! j"
    unfolding in_set_conv_nth by blast
  then have j: "?k + j < length ?cs" "c = ?cs ! (?k + j)"
    by simp_all
  then have klt: "?k < length ?cs" by simp
  with nc have first: "rend r \<le> rstart (range (?cs ! ?k))" by simp
  show ?thesis
  proof (cases j)
    case 0
    with j first show ?thesis by simp
  next
    case (Suc j')
    then have "ends_before (?cs ! ?k) (?cs ! (?k + j))"
      using inv j by (simp add: transcript_inv_def sorted_wrt_iff_nth_less)
    moreover have "text_range_valid (range (?cs ! ?k))"
      using inv klt by (simp add: transcript_inv_def list_all_length)
    ultimately show ?thesis
      using first j valid_start_le_end[of "range (?cs ! ?k)"] by (simp add: ends_before_def)
  qed
qed

section \<open>The transcript stays ordered\<close>

lemma transcript_inv_zero: "transcript_inv transcript_zero"
  by (simp add: transcript_inv_def transcript_zero_def)

lemma change_new_conflict_eq:
  "text_range_valid r \<Longrightarrow> conflicts t r \<Longrightarrow>
   change_new alloc_ok t ty r w s = (t\<lparr>error := SAM_ERR_CONFLICT\<rparr>, None)"
  by (simp add: change_new_def Let_def)

lemma change_new_insert_eq:
  "text_range_valid r \<Longrightarrow> \<not> conflicts t r \<Longrightarrow>
   change_new True t ty r w s =
     (t\<lparr>changes := take (insert_index t r) (changes t) @ fresh_change ty r w s #
                     drop (insert_index t r) (changes t),
        latest := Some (insert_index t r)\<rparr>, Some (insert_index t r))"
  by (simp add: change_new_def Let_def)

lemma change_new_nomem_eq:
  "\<not> conflicts t r \<Longrightarrow> change_new False t ty r w s = (t, None)"
  by (simp add: change_new_def Let_def)

lemma change_new_invalid_eq:
  "\<not> text_range_valid r \<Longrightarrow> change_new alloc_ok t ty r w s = (t, None)"
  by (simp add: change_new_def)

lemma change_new_inv:
  assumes inv: "transcript_inv t"
  shows "transcript_inv (fst (change_new alloc_ok t ty r w s))"
proof (cases "text_range_valid r")
  case False
  with inv show ?thesis by (simp add: change_new_def)
next
  case valid: True
  let ?k = "insert_index t r" and ?cs = "changes t"
  show ?thesis
  proof (cases "conflicts t r")
    case True
    with valid inv show ?thesis
      by (simp add: change_new_conflict_eq transcript_inv_def split: option.splits)
  next
    case nc': False
    then have nc: "\<not> (?k < length ?cs \<and> rstart (range (?cs ! ?k)) < rend r)"
      by (simp add: conflicts_def)
    show ?thesis
    proof (cases alloc_ok)
      case False
      with nc' inv show ?thesis by (simp add: change_new_nomem_eq)
    next
      case True
      let ?n = "fresh_change ty r w s"
      have rn: "range ?n = r" by (simp add: fresh_change_def)
      have split: "?cs = take ?k ?cs @ drop ?k ?cs" by simp
      have sorted: "sorted_wrt ends_before (take ?k ?cs @ drop ?k ?cs)"
        using inv by (simp add: transcript_inv_def)
      have valid_all: "list_all (\<lambda>c. text_range_valid (range c)) (take ?k ?cs @ drop ?k ?cs)"
        using inv by (simp add: transcript_inv_def)
      have pre: "\<forall>c\<in>set (take ?k ?cs). ends_before c ?n"
        using insert_index_prefix[OF inv] by (simp add: ends_before_def rn)
      have suf: "\<forall>c\<in>set (drop ?k ?cs). ends_before ?n c"
        using insert_index_suffix[OF inv nc] by (simp add: ends_before_def rn)
      have "sorted_wrt ends_before (take ?k ?cs @ ?n # drop ?k ?cs)"
        using sorted pre suf unfolding sorted_wrt_append by auto
      moreover have "list_all (\<lambda>c. text_range_valid (range c)) (take ?k ?cs @ ?n # drop ?k ?cs)"
        using valid_all valid unfolding list_all_append by (simp add: rn)
      moreover have "?k < length (take ?k ?cs @ ?n # drop ?k ?cs)"
        using insert_index_le[of t r] by simp
      ultimately show ?thesis
        using True nc' valid by (simp add: change_new_insert_eq transcript_inv_def)
    qed
  qed
qed

lemma change_new_conflict:
  assumes inv: "transcript_inv t" and valid: "text_range_valid r"
    and c: "c \<in> set (changes t)" and ov: "ranges_overlap (range c) r"
  shows "change_new alloc_ok t ty r w s = (t\<lparr>error := SAM_ERR_CONFLICT\<rparr>, None)"
proof -
  let ?k = "insert_index t r" and ?cs = "changes t"
  have "conflicts t r"
  proof (rule ccontr)
    assume "\<not> ?thesis"
    then have nc: "\<not> (?k < length ?cs \<and> rstart (range (?cs ! ?k)) < rend r)"
      by (simp add: conflicts_def)
    from c have "c \<in> set (take ?k ?cs) \<or> c \<in> set (drop ?k ?cs)"
      using set_append[of "take ?k ?cs" "drop ?k ?cs"] by simp
    then show False
    proof
      assume "c \<in> set (take ?k ?cs)"
      then have "rend (range c) \<le> rstart r" by (rule insert_index_prefix[OF inv])
      with ov show False by (auto simp: ranges_overlap_def dest: leD)
    next
      assume "c \<in> set (drop ?k ?cs)"
      then have "rend r \<le> rstart (range c)" by (rule insert_index_suffix[OF inv nc])
      with ov show False by (auto simp: ranges_overlap_def dest: leD)
    qed
  qed
  then show ?thesis using valid by (simp add: change_new_conflict_eq)
qed


lemma set_payload_inv: "transcript_inv t \<Longrightarrow> transcript_inv (set_payload t k d n cnt)"
proof -
  assume inv: "transcript_inv t"
  have m: "map range ((changes t)[k := (changes t ! k)\<lparr>data := d, len := n, count := cnt\<rparr>])
           = map range (changes t)"
  proof (cases "k < length (changes t)")
    case True
    then show ?thesis by (simp add: map_update list_update_same_conv)
  next
    case False
    then have "length (changes t) \<le> k" by simp
    then show ?thesis by (simp only: list_update_beyond)
  qed
  have a: "list_all (\<lambda>c. text_range_valid (range c)) cs \<longleftrightarrow> list_all text_range_valid (map range cs)" for cs
    by (simp add: list_all_iff)
  have b: "sorted_wrt ends_before cs \<longleftrightarrow> sorted_wrt (\<lambda>a b. rend a \<le> rstart b) (map range cs)" for cs
    by (simp add: sorted_wrt_map ends_before_def[abs_def])
  show ?thesis
    using inv unfolding transcript_inv_def a b set_payload_def
    by (simp add: m split: option.splits)
qed

lemma sam_transcript_error_inv:
  "transcript_inv t \<Longrightarrow> transcript_inv (fst (sam_transcript_error t e))"
  by (simp add: sam_transcript_error_def transcript_inv_def Let_def split: option.splits)

lemma transcript_op_inv: "transcript_inv t \<Longrightarrow> transcript_inv (transcript_op x t)"
proof (cases x)
  case (OpInsert a w s pos d n cnt)
  assume inv: "transcript_inv t"
  obtain t' res where cn: "change_new a t TRANSCRIPT_INSERT (text_range_new pos pos) w s = (t', res)"
    by (cases "change_new a t TRANSCRIPT_INSERT (text_range_new pos pos) w s")
  have "transcript_inv t'" using change_new_inv[OF inv, of a TRANSCRIPT_INSERT "text_range_new pos pos" w s] cn by simp
  then show ?thesis using OpInsert cn
    by (cases res) (simp_all add: sam_insert_def set_payload_inv)
next
  case (OpDelete a w s r)
  assume inv: "transcript_inv t"
  obtain t' res where cn: "change_new a t TRANSCRIPT_DELETE r w s = (t', res)"
    by (cases "change_new a t TRANSCRIPT_DELETE r w s")
  have "transcript_inv t'" using change_new_inv[OF inv, of a TRANSCRIPT_DELETE r w s] cn by simp
  then show ?thesis using OpDelete cn
    by (cases res) (simp_all add: sam_delete_def)
next
  case (OpChange a w s r d n cnt)
  assume inv: "transcript_inv t"
  obtain t' res where cn: "change_new a t TRANSCRIPT_CHANGE r w s = (t', res)"
    by (cases "change_new a t TRANSCRIPT_CHANGE r w s")
  have "transcript_inv t'" using change_new_inv[OF inv, of a TRANSCRIPT_CHANGE r w s] cn by simp
  then show ?thesis using OpChange cn
    by (cases res) (simp_all add: sam_change_def set_payload_inv)
next
  case OpWriteCheck
  assume "transcript_inv t"
  then show ?thesis using OpWriteCheck by (simp add: sam_transcript_error_inv)
qed

lemma transcript_ops_inv: "transcript_inv t \<Longrightarrow> transcript_inv (transcript_ops xs t)"
  by (induction xs arbitrary: t) (simp_all add: transcript_op_inv)

lemma change_new_error:
  "error (fst (change_new a t ty r w s)) = error t \<or>
   error (fst (change_new a t ty r w s)) = SAM_ERR_CONFLICT"
  by (simp add: change_new_def Let_def)

lemma error_set_payload [simp]: "error (set_payload t k d n cnt) = error t"
  by (simp add: set_payload_def)

lemma transcript_op_error:
  assumes "error t \<noteq> SAM_ERR_OK"
  shows "error (transcript_op x t) \<noteq> SAM_ERR_OK"
proof (cases x)
  case (OpInsert a w s pos d n cnt)
  then show ?thesis
    using assms change_new_error[of a t TRANSCRIPT_INSERT "text_range_new pos pos" w s]
    by (auto simp: sam_insert_def split: prod.splits option.splits)
next
  case (OpDelete a w s r)
  then show ?thesis
    using assms change_new_error[of a t TRANSCRIPT_DELETE r w s]
    by (auto simp: sam_delete_def split: prod.splits option.splits)
next
  case (OpChange a w s r d n cnt)
  then show ?thesis
    using assms change_new_error[of a t TRANSCRIPT_CHANGE r w s]
    by (auto simp: sam_change_def split: prod.splits option.splits)
next
  case OpWriteCheck
  then show ?thesis using assms by (simp add: sam_transcript_error_def Let_def)
qed

lemma transcript_ops_error:
  "error t \<noteq> SAM_ERR_OK \<Longrightarrow> error (transcript_ops xs t) \<noteq> SAM_ERR_OK"
  by (induction xs arbitrary: t) (simp_all add: transcript_op_error)

lemma apply_file_error:
  "error (transcript f) \<noteq> SAM_ERR_OK \<Longrightarrow>
   apply_file visual f err = (f, if internal f then err else error (transcript f), [])"
  by (simp add: apply_file_def)

section \<open>Conflict detection\<close>

text \<open>
  C1. While the commands of one \<open>sam_cmd\<close> invocation run on a file, whose transcript
  starts zeroed: when a change with a valid range is requested whose range overlaps
  the range of a change already enqueued (each range starts strictly below the end of
  the other), \<open>change_new\<close> sets the transcript's error to \<open>SAM_ERR_CONFLICT\<close>, links
  no node and returns \<open>NULL\<close>; whatever the handlers do to the transcript afterwards,
  its error is still set when the commands are done, so the apply phase skips the file
  and leaves the file, its text included, as it was.
\<close>

theorem overlapping_changes_conflict:
  assumes c: "c \<in> set (changes (transcript_ops before transcript_zero))"
    and valid: "text_range_valid r"
    and ov: "ranges_overlap (range c) r"
    and f: "transcript f =
            transcript_ops after
              (fst (change_new alloc_ok (transcript_ops before transcript_zero) ty r w s))"
  shows "change_new alloc_ok (transcript_ops before transcript_zero) ty r w s =
           ((transcript_ops before transcript_zero)\<lparr>error := SAM_ERR_CONFLICT\<rparr>, None) \<and>
         error (transcript f) \<noteq> SAM_ERR_OK \<and>
         fst (apply_file visual f err) = f"
proof -
  let ?t = "transcript_ops before transcript_zero"
  have inv: "transcript_inv ?t"
    by (rule transcript_ops_inv[OF transcript_inv_zero])
  have eq: "change_new alloc_ok ?t ty r w s = (?t\<lparr>error := SAM_ERR_CONFLICT\<rparr>, None)"
    by (rule change_new_conflict[OF inv valid c ov])
  have "error (transcript_ops after (?t\<lparr>error := SAM_ERR_CONFLICT\<rparr>)) \<noteq> SAM_ERR_OK"
    by (rule transcript_ops_error) simp
  then have err: "error (transcript f) \<noteq> SAM_ERR_OK"
    using f eq by simp
  show ?thesis using eq err by (simp add: apply_file_error)
qed


theorem overlapping_changes_conflict_witness:
  "fresh_change TRANSCRIPT_DELETE \<lparr>rstart = 0, rend = 5\<rparr> 0 None
     \<in> set (changes (transcript_ops [OpDelete True 0 None \<lparr>rstart = 0, rend = 5\<rparr>] transcript_zero)) \<and>
   text_range_valid \<lparr>rstart = 3, rend = 8\<rparr> \<and>
   ranges_overlap (range (fresh_change TRANSCRIPT_DELETE \<lparr>rstart = 0, rend = 5\<rparr> 0 None))
     \<lparr>rstart = 3, rend = 8\<rparr> \<and>
   change_new True (transcript_ops [OpDelete True 0 None \<lparr>rstart = 0, rend = 5\<rparr>] transcript_zero)
       TRANSCRIPT_CHANGE \<lparr>rstart = 3, rend = 8\<rparr> 0 None =
     ((transcript_ops [OpDelete True 0 None \<lparr>rstart = 0, rend = 5\<rparr>] transcript_zero)
        \<lparr>error := SAM_ERR_CONFLICT\<rparr>, None) \<and>
   fst (apply_file False
         \<lparr>internal = False, ftext = ''alpha beta'',
          transcript =
            transcript_ops [OpInsert True 0 None 9 ''X'' 1 1]
              (fst (change_new True
                 (transcript_ops [OpDelete True 0 None \<lparr>rstart = 0, rend = 5\<rparr>] transcript_zero)
                 TRANSCRIPT_CHANGE \<lparr>rstart = 3, rend = 8\<rparr> 0 None))\<rparr> SAM_ERR_OK) =
     \<lparr>internal = False, ftext = ''alpha beta'',
      transcript =
        transcript_ops [OpInsert True 0 None 9 ''X'' 1 1]
          (fst (change_new True
             (transcript_ops [OpDelete True 0 None \<lparr>rstart = 0, rend = 5\<rparr>] transcript_zero)
             TRANSCRIPT_CHANGE \<lparr>rstart = 3, rend = 8\<rparr> 0 None))\<rparr>"
proof -
  have c: "fresh_change TRANSCRIPT_DELETE \<lparr>rstart = 0, rend = 5\<rparr> 0 None
     \<in> set (changes (transcript_ops [OpDelete True 0 None \<lparr>rstart = 0, rend = 5\<rparr>] transcript_zero))"
    by (simp add: sam_delete_def change_new_def text_range_valid_def EPOS_def conflicts_def
        insert_index_def walk_start_def transcript_zero_def)
  have v: "text_range_valid \<lparr>rstart = 3, rend = 8\<rparr>"
    by (simp add: text_range_valid_def EPOS_def)
  have ov: "ranges_overlap (range (fresh_change TRANSCRIPT_DELETE \<lparr>rstart = 0, rend = 5\<rparr> 0 None))
     \<lparr>rstart = 3, rend = 8\<rparr>"
    by (simp add: ranges_overlap_def fresh_change_def)
  let ?f = "\<lparr>internal = False, ftext = ''alpha beta'',
          transcript =
            transcript_ops [OpInsert True 0 None 9 ''X'' 1 1]
              (fst (change_new True
                 (transcript_ops [OpDelete True 0 None \<lparr>rstart = 0, rend = 5\<rparr>] transcript_zero)
                 TRANSCRIPT_CHANGE \<lparr>rstart = 3, rend = 8\<rparr> 0 None))\<rparr>"
  have f: "transcript ?f =
            transcript_ops [OpInsert True 0 None 9 ''X'' 1 1]
              (fst (change_new True
                 (transcript_ops [OpDelete True 0 None \<lparr>rstart = 0, rend = 5\<rparr>] transcript_zero)
                 TRANSCRIPT_CHANGE \<lparr>rstart = 3, rend = 8\<rparr> 0 None))"
    by simp
  from overlapping_changes_conflict[OF c v ov f, of False SAM_ERR_OK]
  show ?thesis using c v ov by blast
qed

lemma inv_sorted_starts: "transcript_inv t \<Longrightarrow> sorted (change_starts t)"
proof -
  assume inv: "transcript_inv t"
  have "sorted_wrt (\<lambda>a b. rstart (range a) \<le> rstart (range b)) (changes t)"
  proof (rule sorted_wrt_mono_rel[of "changes t" ends_before])
    show "sorted_wrt ends_before (changes t)" using inv by (simp add: transcript_inv_def)
  next
    fix a b assume "a \<in> set (changes t)" "b \<in> set (changes t)" "ends_before a b"
    moreover from \<open>a \<in> set (changes t)\<close> have "rstart (range a) \<le> rend (range a)"
      using inv by (simp add: transcript_inv_def list_all_iff text_range_valid_def)
    ultimately show "rstart (range a) \<le> rstart (range b)"
      unfolding ends_before_def by (meson order_trans)
  qed
  then show ?thesis by (simp add: change_starts_def sorted_map)
qed

lemma inv_disjoint: "transcript_inv t \<Longrightarrow> sorted_wrt disjoint_changes (changes t)"
proof -
  assume inv: "transcript_inv t"
  show ?thesis
  proof (rule sorted_wrt_mono_rel[of "changes t" ends_before])
    show "sorted_wrt ends_before (changes t)" using inv by (simp add: transcript_inv_def)
  next
    fix a b assume "ends_before a b"
    then show "disjoint_changes a b"
      by (auto simp: disjoint_changes_def ranges_overlap_def ends_before_def dest: leD)
  qed
qed

text \<open>
  C2, as the code has it. After every call of \<open>change_new\<close> on a transcript in the
  state described by \<open>transcript_inv\<close> (the zeroed transcript is, and every call
  keeps it), the transcript is in that state again: its changes are ordered by
  \<open>range.start\<close>, not strictly, every change ends at or before the start of each later
  one, so the ranges are pairwise non-overlapping; and a change with a valid range that
  overlaps the range of an existing change is not linked and sets the error to
  \<open>SAM_ERR_CONFLICT\<close>.
\<close>

theorem change_new_keeps_order:
  assumes inv: "transcript_inv t"
  shows "transcript_inv (fst (change_new alloc_ok t ty r w s)) \<and>
         sorted (change_starts (fst (change_new alloc_ok t ty r w s))) \<and>
         sorted_wrt disjoint_changes (changes (fst (change_new alloc_ok t ty r w s))) \<and>
         (text_range_valid r \<and> (\<exists>c\<in>set (changes t). ranges_overlap (range c) r) \<longrightarrow>
            change_new alloc_ok t ty r w s = (t\<lparr>error := SAM_ERR_CONFLICT\<rparr>, None))"
proof -
  have inv': "transcript_inv (fst (change_new alloc_ok t ty r w s))"
    by (rule change_new_inv[OF inv])
  show ?thesis
    using inv' inv_sorted_starts[OF inv'] inv_disjoint[OF inv'] change_new_conflict[OF inv]
    by blast
qed

theorem change_new_keeps_order_witness:
  "transcript_inv transcript_zero \<and>
   sorted (change_starts (fst (change_new True transcript_zero TRANSCRIPT_DELETE
                                 \<lparr>rstart = 2, rend = 4\<rparr> 0 None))) \<and>
   changes (fst (change_new True transcript_zero TRANSCRIPT_DELETE
                   \<lparr>rstart = 2, rend = 4\<rparr> 0 None)) =
     [fresh_change TRANSCRIPT_DELETE \<lparr>rstart = 2, rend = 4\<rparr> 0 None]"
proof -
  have inv: "transcript_inv transcript_zero"
    by (simp add: transcript_inv_def transcript_zero_def)
  have ch: "changes (fst (change_new True transcript_zero TRANSCRIPT_DELETE
                   \<lparr>rstart = 2, rend = 4\<rparr> 0 None)) =
     [fresh_change TRANSCRIPT_DELETE \<lparr>rstart = 2, rend = 4\<rparr> 0 None]"
    by (simp add: change_new_def text_range_valid_def EPOS_def conflicts_def
        insert_index_def walk_start_def transcript_zero_def)
  from change_new_keeps_order[OF inv, of True TRANSCRIPT_DELETE "\<lparr>rstart = 2, rend = 4\<rparr>" 0 None]
  show ?thesis using inv ch by blast
qed

text \<open>
  The order by \<open>range.start\<close> is not strict: two insertions at the same position are
  both linked, one behind the other.
\<close>

theorem equal_starts_counterexample:
  "\<not> sorted_wrt (<)
       (change_starts
          (fst (change_new True
                  (fst (change_new True transcript_zero TRANSCRIPT_INSERT
                          \<lparr>rstart = 5, rend = 5\<rparr> 0 None))
                  TRANSCRIPT_INSERT \<lparr>rstart = 5, rend = 5\<rparr> 0 None)))"
  by (simp add: change_starts_def change_new_def text_range_valid_def EPOS_def conflicts_def
      insert_index_def walk_start_def transcript_zero_def fresh_change_def)

section \<open>Invalid ranges are refused silently\<close>

text \<open>
  C10. For every transcript and every invalid range (start or end is \<open>EPOS\<close>, or start
  above end), \<open>change_new\<close> returns \<open>NULL\<close>, links no node, sets no error and leaves the
  transcript as it was; hence \<open>sam_delete\<close> and \<open>sam_change\<close> return false on such a
  range, and \<open>sam_insert\<close> at the position \<open>EPOS\<close>, with the transcript unchanged.
\<close>

theorem change_new_invalid_range:
  assumes "rstart r = EPOS \<or> rend r = EPOS \<or> rend r < rstart r"
  shows "change_new alloc_ok t ty r w s = (t, None) \<and>
         sam_delete alloc_ok t w s r = (t, False) \<and>
         sam_change alloc_ok t w s r d n cnt = (t, False) \<and>
         sam_insert alloc_ok t w s EPOS d n cnt = (t, False)"
proof -
  have inv: "\<not> text_range_valid r"
    using assms by (auto simp: text_range_valid_def)
  have "change_new alloc_ok t ty r w s = (t, None)"
    using inv by (simp add: change_new_def)
  moreover have "sam_delete alloc_ok t w s r = (t, False)"
    using inv by (simp add: sam_delete_def change_new_def)
  moreover have "sam_change alloc_ok t w s r d n cnt = (t, False)"
    using inv by (simp add: sam_change_def change_new_def)
  moreover have "sam_insert alloc_ok t w s EPOS d n cnt = (t, False)"
    by (simp add: sam_insert_def change_new_def text_range_new_def text_range_valid_def)
  ultimately show ?thesis by simp
qed

theorem change_new_invalid_range_witness:
  "(rstart \<lparr>rstart = 8, rend = 3\<rparr> = EPOS \<or> rend \<lparr>rstart = 8, rend = 3\<rparr> = EPOS \<or>
    rend \<lparr>rstart = 8, rend = 3\<rparr> < rstart \<lparr>rstart = 8, rend = 3\<rparr>) \<and>
   change_new True transcript_zero TRANSCRIPT_DELETE \<lparr>rstart = 8, rend = 3\<rparr> 0 None =
     (transcript_zero, None) \<and>
   sam_delete True transcript_zero 0 None \<lparr>rstart = 8, rend = 3\<rparr> = (transcript_zero, False)"
proof -
  have h: "rstart \<lparr>rstart = 8, rend = 3\<rparr> = EPOS \<or> rend \<lparr>rstart = 8, rend = 3\<rparr> = EPOS \<or>
    rend \<lparr>rstart = 8, rend = 3\<rparr> < rstart \<lparr>rstart = 8, rend = (3::size_t)\<rparr>"
    by simp
  from change_new_invalid_range[OF h, of True transcript_zero TRANSCRIPT_DELETE 0 None]
  show ?thesis using h by blast
qed

section \<open>The lexer at a brace\<close>

text \<open>
  C3. Concatenating the slices of the tokens of \<open>sam_lex\<close> in emission order should give
  the line without its whitespace. At the line \<open>{ab}c\<close>, which holds no whitespace,
  the code emits the tokens \<open>{\<close>, \<open>b\<close> and \<open>}\<close>: the byte behind each brace is consumed
  with the brace and belongs to no token.
\<close>

theorem sam_lex_skips_byte_after_brace:
  "sam_lex ''{ab}c'' =
     Some [\<lparr>tstart = 0, tlength = 1, ttype = ST_GROUP_START\<rparr>,
           \<lparr>tstart = 2, tlength = 1, ttype = ST_STRING\<rparr>,
           \<lparr>tstart = 3, tlength = 1, ttype = ST_GROUP_END\<rparr>] \<and>
   stream_bytes ''{ab}c''
     [\<lparr>tstart = 0, tlength = 1, ttype = ST_GROUP_START\<rparr>,
      \<lparr>tstart = 2, tlength = 1, ttype = ST_STRING\<rparr>,
      \<lparr>tstart = 3, tlength = 1, ttype = ST_GROUP_END\<rparr>] = ''{b}'' \<and>
   without_space ''{ab}c'' = ''{ab}c''"
  by (simp add: sam_lex_def fresh_accum_def ISSPACE_def ISDIGIT_def IS_SAM_DELIMITER_def
      lex_group_def consume_def sam_token_push_def sam_token_at_def stream_bytes_def
      token_bytes_def without_space_def)

text \<open>
  A brace that is the last byte of the line makes the second \<open>consume\<close> fail its
  assertion: the group \<open>{ d }\<close> is not lexed at all.
\<close>

lemma sam_lex_traps_on_final_brace: "sam_lex ''{ d }'' = None"
  by (simp add: sam_lex_def fresh_accum_def ISSPACE_def ISDIGIT_def IS_SAM_DELIMITER_def
      lex_group_def consume_def sam_token_push_def sam_token_at_def)

section \<open>Unregistering a user command\<close>

text \<open>
  C9. For every name, \<open>vis_cmd_unregister\<close> either removes the entry of the name from
  the command map and from the user-command map, both of which held one, and returns
  true, or changes neither map and returns false.
\<close>

theorem vis_cmd_unregister_atomic:
  "(vis_cmd_unregister vis (Some n) =
      (vis\<lparr>cmds := (cmds vis)(n := None), usercmds := (usercmds vis)(n := None)\<rparr>, True) \<and>
    cmds vis n \<noteq> None \<and> usercmds vis n \<noteq> None) \<or>
   vis_cmd_unregister vis (Some n) = (vis, False)"
proof (cases "usercmds vis n")
  case None
  then show ?thesis by (simp add: vis_cmd_unregister_def map_get_def)
next
  case u: (Some cmd)
  show ?thesis
  proof (cases "cmds vis n")
    case None
    then have "(cmds vis)(n := None) = cmds vis" by (simp add: fun_upd_idem)
    with None u show ?thesis
      by (simp add: vis_cmd_unregister_def map_get_def map_delete_def)
  next
    case (Some d)
    with u show ?thesis
      by (simp add: vis_cmd_unregister_def map_get_def map_delete_def)
  qed
qed

text \<open>A name that was registered is unregistered with success, which restores both maps.\<close>

lemma vis_cmd_register_then_unregister:
  assumes "vis_cmd_register vis (Some n) dat f = (vis', True)"
  shows "vis_cmd_unregister vis' (Some n) = (vis, True)"
proof -
  from assms have c: "cmds vis n = None" and u: "usercmds vis n = None"
    by (auto simp: vis_cmd_register_def map_put_def map_delete_def Let_def split: if_splits)
  then have idem: "(cmds vis)(n := None) = cmds vis" "(usercmds vis)(n := None) = usercmds vis"
    by (simp_all add: fun_upd_idem)
  from assms c u have "vis' = vis\<lparr>cmds := (cmds vis)(n \<mapsto>
        \<lparr>name = n, fn = command_user, flags = [CMD_ARGV, CMD_FORCE, CMD_ONCE, CMD_ADDRESS_ALL]\<rparr>),
      usercmds := (usercmds vis)(n \<mapsto> \<lparr>definition_of =
        \<lparr>name = n, fn = command_user, flags = [CMD_ARGV, CMD_FORCE, CMD_ONCE, CMD_ADDRESS_ALL]\<rparr>,
        func = f, udata = dat\<rparr>)\<rparr>"
    by (auto simp: vis_cmd_register_def map_put_def Let_def)
  then show ?thesis
    by (simp add: vis_cmd_unregister_def map_get_def map_delete_def idem)
qed

section \<open>Addresses with \<open>,\<close> and \<open>;\<close>\<close>

lemma evaluate_address_side_returns:
  "as \<noteq> AT_INVALID \<Longrightarrow> \<exists>x. evaluate_address_side as fl sl rng = Some x"
  by (cases as) (simp_all add: evaluate_address_side_def Let_def)

text \<open>
  C7. For every address whose delimiter is \<open>,\<close> or \<open>;\<close>, \<open>evaluate_address\<close> returns the
  union of a left range and a right range. The left range is what the left side
  evaluates to under the current range, or \<open>[0,0]\<close> when the left side is omitted. The
  right range is \<open>[size,size]\<close> when the right side is omitted, and otherwise what the
  right side evaluates to: under the current range for \<open>,\<close>, under the left range for
  \<open>;\<close>.
\<close>

theorem evaluate_address_union:
  assumes "delimeter addr = CHR '','' \<or> delimeter addr = CHR '';''"
  shows "\<exists>l r.
     (if left addr = AT_INVALID then l = \<lparr>rstart = 0, rend = 0\<rparr>
      else evaluate_address_side (left addr) fl sl rng = Some l) \<and>
     (if right addr = AT_INVALID then r = \<lparr>rstart = text_size fl, rend = text_size fl\<rparr>
      else evaluate_address_side (right addr) fl sl
             (if delimeter addr = CHR '';'' then l else rng) = Some r) \<and>
     evaluate_address addr fl sl rng = Some (text_range_union fl l r)"
proof -
  obtain l where l: "(if left addr \<noteq> AT_INVALID then evaluate_address_side (left addr) fl sl rng
            else Some \<lparr>rstart = 0, rend = 0\<rparr>) = Some l"
    using evaluate_address_side_returns[of "left addr" fl sl rng] by (cases "left addr = AT_INVALID") auto
  let ?rng = "if delimeter addr = CHR '';'' then l else rng"
  obtain r where r: "(if right addr \<noteq> AT_INVALID
                    then evaluate_address_side (right addr) fl sl ?rng
                    else Some \<lparr>rstart = text_size fl, rend = text_size fl\<rparr>) = Some r"
    using evaluate_address_side_returns[of "right addr" fl sl ?rng] by (cases "right addr = AT_INVALID") auto
  have "evaluate_address addr fl sl rng = evaluate_union addr fl sl rng"
    using assms by (auto simp: evaluate_address_def)
  also have "\<dots> = Some (text_range_union fl l r)"
    using l r by (simp add: evaluate_union_def Let_def)
  finally have e: "evaluate_address addr fl sl rng = Some (text_range_union fl l r)" .
  have a: "if left addr = AT_INVALID then l = \<lparr>rstart = 0, rend = 0\<rparr>
      else evaluate_address_side (left addr) fl sl rng = Some l"
    using l by (auto split: if_splits)
  have b: "if right addr = AT_INVALID then r = \<lparr>rstart = text_size fl, rend = text_size fl\<rparr>
      else evaluate_address_side (right addr) fl sl ?rng = Some r"
    using r by (auto split: if_splits)
  from a b e show ?thesis by blast
qed


section \<open>The guard commands\<close>

text \<open>
  C6, as the code has it. \<open>g\<close> runs its nested command on the range exactly when the
  pattern matches inside the range and the iteration passes the count check. \<open>v\<close> runs
  its nested command exactly when that is not the case: when the pattern does not match
  inside the range or the iteration fails the count check. Whenever a guard does not run
  its nested command it disposes the selection and returns true.
\<close>

theorem command_guard_condition:
  "(name (cdefinition cmd) = ''g'' \<longrightarrow>
      command_guard ops cmd rng w =
        (if guard_match ops cmd rng \<and> count_evaluate cmd
         then sam_execute_nested ops rng w
         else (True, view_selections_dispose_force ops w))) \<and>
   (name (cdefinition cmd) = ''v'' \<longrightarrow>
      command_guard ops cmd rng w =
        (if \<not> (guard_match ops cmd rng \<and> count_evaluate cmd)
         then sam_execute_nested ops rng w
         else (True, view_selections_dispose_force ops w)))"
  by (auto simp: command_guard_def)

text \<open>
  \<open>v\<close> does not require the count check to pass: with a pattern that does not match
  and an iteration outside the count, the nested command runs.
\<close>

theorem guard_v_ignores_failed_count_counterexample:
  "\<not> count_evaluate sample_v_command \<and>
   \<not> guard_match sample_guard_ops sample_v_command \<lparr>rstart = 0, rend = 4\<rparr> \<and>
   command_guard sample_guard_ops sample_v_command \<lparr>rstart = 0, rend = 4\<rparr> [] =
     (True, [''sam_execute''])"
  by (simp add: command_guard_def count_evaluate_def guard_match_def sample_v_command_def
      sample_guard_ops_def)


theorem evaluate_address_union_witness:
  "(delimeter sample_address = CHR '','' \<or> delimeter sample_address = CHR '';'') \<and>
   evaluate_address sample_address sample_file None \<lparr>rstart = 7, rend = 9\<rparr> =
     Some \<lparr>rstart = 3, rend = 20\<rparr>"
proof -
  have d: "delimeter sample_address = CHR '','' \<or> delimeter sample_address = CHR '';''"
    by (simp add: sample_address_def)
  from evaluate_address_union[OF d, of sample_file None "\<lparr>rstart = 7, rend = 9\<rparr>"]
  obtain l r where
    l: "if left sample_address = AT_INVALID then l = \<lparr>rstart = 0, rend = 0\<rparr>
        else evaluate_address_side (left sample_address) sample_file None \<lparr>rstart = 7, rend = 9\<rparr> = Some l"
    and r: "if right sample_address = AT_INVALID
            then r = \<lparr>rstart = text_size sample_file, rend = text_size sample_file\<rparr>
            else evaluate_address_side (right sample_address) sample_file None
                   (if delimeter sample_address = CHR '';'' then l else \<lparr>rstart = 7, rend = 9\<rparr>) = Some r"
    and e: "evaluate_address sample_address sample_file None \<lparr>rstart = 7, rend = 9\<rparr> =
            Some (text_range_union sample_file l r)"
    by blast
  from l have l': "l = \<lparr>rstart = 3, rend = 3\<rparr>"
    by (simp add: sample_address_def evaluate_address_side_def)
  from r have r': "r = \<lparr>rstart = 20, rend = 20\<rparr>"
    by (simp add: sample_address_def sample_file_def)
  show ?thesis using d e by (simp add: l' r' sample_file_def)
qed

theorem command_guard_condition_witness:
  "name (cdefinition sample_g_command) = ''g'' \<and>
   guard_match sample_guard_ops sample_g_command \<lparr>rstart = 0, rend = 4\<rparr> \<and>
   count_evaluate sample_g_command \<and>
   command_guard sample_guard_ops sample_g_command \<lparr>rstart = 0, rend = 4\<rparr> [] =
     (True, [''sam_execute''])"
proof -
  have n: "name (cdefinition sample_g_command) = ''g''"
    by (simp add: sample_g_command_def)
  have m: "guard_match sample_guard_ops sample_g_command \<lparr>rstart = 0, rend = 4\<rparr>"
    by (simp add: guard_match_def sample_g_command_def)
  have c: "count_evaluate sample_g_command"
    by (simp add: count_evaluate_def sample_g_command_def)
  from command_guard_condition[of sample_g_command sample_guard_ops "\<lparr>rstart = 0, rend = 4\<rparr>" "[]"]
  have "command_guard sample_guard_ops sample_g_command \<lparr>rstart = 0, rend = 4\<rparr> [] =
        sam_execute_nested sample_guard_ops \<lparr>rstart = 0, rend = 4\<rparr> []"
    using n m c by simp
  then show ?thesis using n m c by (simp add: sample_guard_ops_def)
qed

section \<open>Destructive commands after a loop\<close>

lemma exec_loop_exit:
  "should_exit vis \<Longrightarrow> exec_loop ops loc sts vis = Returned (loc, sts, vis)"
  by (cases sts) simp_all

lemma dispatch_rejects:
  assumes "did_looping_command loc" and "has_flag d CMD_DESTRUCTIVE"
  shows "dispatch ops d loc sts vis = (loc, sts, vis\<lparr>should_exit := True\<rparr>)"
  using assms by (simp add: dispatch_def)

lemma dispatch_record_ok:
  assumes ok: "record_ok loc vis"
    and d: "dispatch (recording ops) d loc sts vis = (loc', sts', vis')"
  shows "record_ok loc' vis'"
proof (cases "did_looping_command loc \<and> has_flag d CMD_DESTRUCTIVE")
  case True
  with d have "loc' = loc" "vis' = vis\<lparr>should_exit := True\<rparr>"
    by (simp_all add: dispatch_rejects)
  with ok show ?thesis by (simp add: record_ok_def)
next
  case False
  obtain w called where wc: "world vis = (w, called)" by (cases "world vis")
  obtain result n w' where e: "execute_command ops d (hd (command loc)) sts w = (result, n, w')"
    by (cases "execute_command ops d (hd (command loc)) sts w")
  from d False wc e have loc': "loc' = loc\<lparr>did_looping_command := did_looping_command loc \<or> has_flag d CMD_LOOP\<rparr>"
    and vis': "world vis' = (w', called @ [d])"
    by (auto simp: dispatch_def recording_def Let_def)
  have "\<forall>a\<in>set called. loop_then_safe a d"
  proof
    fix a assume a: "a \<in> set called"
    show "loop_then_safe a d"
    proof (cases "has_flag a CMD_LOOP")
      case True
      with a ok wc have "did_looping_command loc" by (auto simp: record_ok_def)
      with False show ?thesis by (simp add: loop_then_safe_def)
    next
      case False
      then show ?thesis by (simp add: loop_then_safe_def)
    qed
  qed
  with ok wc have "sorted_wrt loop_then_safe (called @ [d])"
    by (simp add: record_ok_def sorted_wrt_append)
  moreover have "(\<exists>a\<in>set (called @ [d]). has_flag a CMD_LOOP) \<longrightarrow> did_looping_command loc'"
    using ok wc loc' by (auto simp: record_ok_def)
  ultimately show ?thesis using vis' by (simp add: record_ok_def)
qed

lemma exec_loop_record_ok:
  "record_ok loc vis \<Longrightarrow>
   sorted_wrt loop_then_safe (snd (world (final_vis (exec_loop (recording ops) loc sts vis))))"
proof (induction "recording ops" loc sts vis rule: exec_loop.induct)
  case (1 loc vis)
  then show ?case by (simp add: record_ok_def final_vis_def outcome_state_def)
next
  case (2 loc token sts vis)
  show ?case
  proof (cases "should_exit vis")
    case True
    with "2.prems" show ?thesis by (simp add: record_ok_def final_vis_def outcome_state_def)
  next
    case ne: False
    show ?thesis
    proof (cases "ttype token")
      case ST_GROUP_START
      have "record_ok (loc\<lparr>command := zero_address # command loc\<rparr>) vis"
        using "2.prems" by (simp add: record_ok_def)
      from "2.hyps"(4)[OF ne ST_GROUP_START this] show ?thesis
        using ne ST_GROUP_START by simp
    next
      case ST_GROUP_END
      show ?thesis
      proof (cases "tl (command loc) = []")
        case True
        with ne ST_GROUP_END "2.prems" show ?thesis
          by (simp add: record_ok_def final_vis_def outcome_state_def)
      next
        case False
        have "record_ok (loc\<lparr>nesting_level := nesting_level loc - 1, command := tl (command loc)\<rparr>) vis"
          using "2.prems" by (simp add: record_ok_def)
        from "2.hyps"(3)[OF ne ST_GROUP_END False this] show ?thesis
          using ne ST_GROUP_END False by simp
      qed
    next
      case ST_STRING
      obtain joined n where j: "sam_token_join_command_name (recording ops) token sts = (joined, n)"
        by (cases "sam_token_join_command_name (recording ops) token sts")
      show ?thesis
      proof (cases "lookup_command_definition (recording ops) joined")
        case None
        have "record_ok loc (vis\<lparr>should_exit := True, sam_log := sam_log vis @ [''invalid command'']\<rparr>)"
          using "2.prems" by (simp add: record_ok_def)
        from "2.hyps"(6)[OF ne ST_STRING j[symmetric] None this] show ?thesis
          using ne ST_STRING j None by simp
      next
        case (Some d)
        obtain loc' sts' vis' where dd: "dispatch (recording ops) d loc (drop n sts) vis = (loc', sts', vis')"
          by (cases "dispatch (recording ops) d loc (drop n sts) vis")
        have ok': "record_ok loc' vis'" by (rule dispatch_record_ok[OF "2.prems" dd])
        from "2.hyps"(7)[OF ne ST_STRING j[symmetric] Some dd[symmetric] refl ok'] show ?thesis
          using ne ST_STRING j Some dd by simp
      qed
    next
      case ST_INVALID
      have "record_ok loc (vis\<lparr>should_exit := True\<rparr>)"
        using "2.prems" by (simp add: record_ok_def)
      from "2.hyps"(1)[OF ne ST_INVALID this] show ?thesis
        using ne ST_INVALID by simp
    next
      case ST_DELIMITER
      have "record_ok loc (vis\<lparr>should_exit := True\<rparr>)"
        using "2.prems" by (simp add: record_ok_def)
      from "2.hyps"(2)[OF ne ST_DELIMITER this] show ?thesis
        using ne ST_DELIMITER by simp
    next
      case ST_NUMBER
      have "record_ok loc (vis\<lparr>should_exit := True\<rparr>)"
        using "2.prems" by (simp add: record_ok_def)
      from "2.hyps"(5)[OF ne ST_NUMBER this] show ?thesis
        using ne ST_NUMBER by simp
    qed
  qed
qed

lemma execute_token_stream_executed:
  "sts \<noteq> [] \<Longrightarrow> parse_address ops sts = (addr, n) \<Longrightarrow>
   world (outcome_state (execute_token_stream ops sts vis)) =
   world (final_vis (exec_loop ops
            \<lparr>did_looping_command = False, nesting_level = 0, command = [addr]\<rparr> (drop n sts) vis))"
  by (cases "exec_loop ops \<lparr>did_looping_command = False, nesting_level = 0, command = [addr]\<rparr>
               (drop n sts) vis")
     (auto simp: execute_token_stream_def final_vis_def outcome_state_def Let_def)

lemma names_with_loop: "names_with_flag CMD_LOOP = [''x'', ''y'']"
  by (simp add: names_with_flag_def command_definition_table_def has_flag_def)

lemma names_with_destructive: "names_with_flag CMD_DESTRUCTIVE = [''e'', ''q'', ''qall'', ''wq'']"
  by (simp add: names_with_flag_def command_definition_table_def has_flag_def)

text \<open>
  C5, as the code has it. In every run of \<open>execute_token_stream\<close>, whatever the
  collaborators do, no command whose definition carries \<open>CMD_DESTRUCTIVE\<close> is executed
  after a command whose definition carries \<open>CMD_LOOP\<close>. When such a command has been
  dispatched and the name read next is that of a destructive command, the handler is
  not called: the loop sets \<open>should_exit\<close> and returns with the editor otherwise as it
  was and the tokens behind the name unread. In the command table \<open>CMD_LOOP\<close> is
  carried by \<open>x\<close> and \<open>y\<close> only, not by \<open>g\<close>, \<open>v\<close>, \<open>X\<close> or \<open>Y\<close>, and
  \<open>CMD_DESTRUCTIVE\<close> by \<open>e\<close>, \<open>q\<close>, \<open>qall\<close> and \<open>wq\<close>.
\<close>

theorem destructive_after_loop_rejected:
  "(snd (world vis) = [] \<longrightarrow>
      sorted_wrt loop_then_safe (executed (execute_token_stream (recording ops) sts vis))) \<and>
   (\<not> should_exit vis' \<and> did_looping_command loc \<and> ttype token = ST_STRING \<and>
    sam_token_join_command_name ops' token rest = (joined, n) \<and>
    lookup_command_definition ops' joined = Some d \<and> has_flag d CMD_DESTRUCTIVE \<longrightarrow>
      exec_loop ops' loc (token # rest) vis' =
        Returned (loc, drop n rest, vis'\<lparr>should_exit := True\<rparr>)) \<and>
   names_with_flag CMD_LOOP = [''x'', ''y''] \<and>
   names_with_flag CMD_DESTRUCTIVE = [''e'', ''q'', ''qall'', ''wq'']"
proof (intro conjI impI)
  assume empty: "snd (world vis) = []"
  show "sorted_wrt loop_then_safe (executed (execute_token_stream (recording ops) sts vis))"
  proof (cases "sts = []")
    case True
    with empty show ?thesis
      by (simp add: executed_def execute_token_stream_def outcome_state_def)
  next
    case False
    obtain addr k where pa: "parse_address (recording ops) sts = (addr, k)"
      by (cases "parse_address (recording ops) sts")
    have "record_ok \<lparr>did_looping_command = False, nesting_level = 0, command = [addr]\<rparr> vis"
      using empty by (simp add: record_ok_def)
    from exec_loop_record_ok[OF this, of ops "drop k sts"] show ?thesis
      by (simp add: executed_def execute_token_stream_executed[OF False pa])
  qed
next
  assume a: "\<not> should_exit vis' \<and> did_looping_command loc \<and> ttype token = ST_STRING \<and>
    sam_token_join_command_name ops' token rest = (joined, n) \<and>
    lookup_command_definition ops' joined = Some d \<and> has_flag d CMD_DESTRUCTIVE"
  then have "exec_loop ops' loc (token # rest) vis' =
             exec_loop ops' loc (drop n rest) (vis'\<lparr>should_exit := True\<rparr>)"
    by (simp add: dispatch_rejects)
  then show "exec_loop ops' loc (token # rest) vis' =
        Returned (loc, drop n rest, vis'\<lparr>should_exit := True\<rparr>)"
    by (simp add: exec_loop_exit)
qed (rule names_with_loop names_with_destructive)+

text \<open>The line \<open>x q\<close>: \<open>x\<close> is executed, \<open>q\<close> is not, and the run stops.\<close>

lemma sample_run_x_q:
  "execute_token_stream (recording (sample_exec_ops ''x q''))
      [\<lparr>tstart = 0, tlength = 1, ttype = ST_STRING\<rparr>,
       \<lparr>tstart = 2, tlength = 1, ttype = ST_STRING\<rparr>] sample_vis =
   Returned \<lparr>should_exit = True, sam_log = [],
     world = ((), [\<lparr>name = ''x'', fn = command_extract,
        flags = [CMD_CMD, CMD_REGEX, CMD_REGEX_DEFAULT, CMD_ADDRESS_ALL_1CURSOR, CMD_LOOP, CMD_WIN]\<rparr>])\<rparr>"
  by (simp add: execute_token_stream_def recording_def sample_exec_ops_def sample_vis_def
      dispatch_def token_bytes_def command_definition_table_def has_flag_def)

text \<open>The line \<open>v q\<close>: \<open>q\<close> is executed after the guard \<open>v\<close>.\<close>

theorem q_after_v_counterexample:
  "map name (executed (execute_token_stream (recording (sample_exec_ops ''v q''))
      [\<lparr>tstart = 0, tlength = 1, ttype = ST_STRING\<rparr>,
       \<lparr>tstart = 2, tlength = 1, ttype = ST_STRING\<rparr>] sample_vis)) = [''v'', ''q'']"
  by (simp add: execute_token_stream_def recording_def sample_exec_ops_def sample_vis_def
      dispatch_def token_bytes_def command_definition_table_def has_flag_def executed_def
      outcome_state_def)

theorem destructive_after_loop_rejected_witness:
  "snd (world sample_vis) = [] \<and>
   sorted_wrt loop_then_safe
     (executed (execute_token_stream (recording (sample_exec_ops ''x q''))
        [\<lparr>tstart = 0, tlength = 1, ttype = ST_STRING\<rparr>,
         \<lparr>tstart = 2, tlength = 1, ttype = ST_STRING\<rparr>] sample_vis)) \<and>
   map name
     (executed (execute_token_stream (recording (sample_exec_ops ''x q''))
        [\<lparr>tstart = 0, tlength = 1, ttype = ST_STRING\<rparr>,
         \<lparr>tstart = 2, tlength = 1, ttype = ST_STRING\<rparr>] sample_vis)) = [''x''] \<and>
   should_exit
     (outcome_state (execute_token_stream (recording (sample_exec_ops ''x q''))
        [\<lparr>tstart = 0, tlength = 1, ttype = ST_STRING\<rparr>,
         \<lparr>tstart = 2, tlength = 1, ttype = ST_STRING\<rparr>] sample_vis))"
proof -
  have e: "snd (world sample_vis) = []"
    by (simp add: sample_vis_def)
  from destructive_after_loop_rejected[of sample_vis "sample_exec_ops ''x q''"
      "[\<lparr>tstart = 0, tlength = 1, ttype = ST_STRING\<rparr>,
        \<lparr>tstart = 2, tlength = 1, ttype = ST_STRING\<rparr>]"] e
  have s: "sorted_wrt loop_then_safe
     (executed (execute_token_stream (recording (sample_exec_ops ''x q''))
        [\<lparr>tstart = 0, tlength = 1, ttype = ST_STRING\<rparr>,
         \<lparr>tstart = 2, tlength = 1, ttype = ST_STRING\<rparr>] sample_vis))"
    by blast
  have m: "map name
     (executed (execute_token_stream (recording (sample_exec_ops ''x q''))
        [\<lparr>tstart = 0, tlength = 1, ttype = ST_STRING\<rparr>,
         \<lparr>tstart = 2, tlength = 1, ttype = ST_STRING\<rparr>] sample_vis)) = [''x'']"
    unfolding sample_run_x_q by (simp add: executed_def outcome_state_def)
  have x: "should_exit
     (outcome_state (execute_token_stream (recording (sample_exec_ops ''x q''))
        [\<lparr>tstart = 0, tlength = 1, ttype = ST_STRING\<rparr>,
         \<lparr>tstart = 2, tlength = 1, ttype = ST_STRING\<rparr>] sample_vis))"
    unfolding sample_run_x_q by (simp add: outcome_state_def)
  from e s m x show ?thesis by blast
qed

section \<open>The running offset of the apply phase\<close>

lemma concat_replicate_commute:
  "concat (replicate k xs) @ xs = xs @ concat (replicate k xs)"
  by (induction k) simp_all

lemma spec_insert_copies_step:
  "spec_insert_copies (text_insert txt pos d n) pos d n k = spec_insert_copies txt pos d n (Suc k)"
proof (cases "unat pos \<le> length txt")
  case True
  then show ?thesis
    by (simp add: spec_insert_copies_def text_insert_def concat_replicate_commute)
next
  case False
  then show ?thesis by (simp add: spec_insert_copies_def text_insert_def)
qed

lemma spec_insert_copies_0: "spec_insert_copies txt pos d n 0 = txt"
  by (simp add: spec_insert_copies_def)

lemma insert_loop_eq:
  "insert_loop k pos d n st =
   st\<lparr>a_text := spec_insert_copies (a_text st) pos d n k, a_delta := a_delta st + n * of_nat k\<rparr>"
proof (induction k arbitrary: st)
  case 0
  then show ?case by (simp add: spec_insert_copies_0)
next
  case (Suc k)
  show ?case
    by (simp add: Suc.IH spec_insert_copies_step algebra_simps del: replicate_Suc)
qed

lemma uint_shift:
  fixes a :: size_t
  assumes "0 \<le> uint a + k" "uint a + k < 2 ^ 64"
  shows "uint (a + word_of_int k) = uint a + k"
proof -
  have "a + word_of_int k = word_of_int (uint a + k)" by simp
  then have "uint (a + word_of_int k) = take_bit 64 (uint a + k)"
    by (simp only: uint_word_of_int_eq) simp
  also have "\<dots> = uint a + k"
    using assms by (simp add: take_bit_int_eq_self)
  finally show ?thesis .
qed

lemma uint_EPOS: "uint EPOS = 2 ^ 64 - 1"
  by (simp add: EPOS_def unsigned_minus_1_eq_mask mask_eq_exp_minus_1)

lemma shifted_valid:
  assumes lo: "0 \<le> uint (rstart r) + k" and hi: "uint (rend r) + k < 2 ^ 64 - 1"
    and v: "text_range_valid r"
  shows "text_range_valid (shift_range (word_of_int k) r)"
proof -
  have le: "uint (rstart r) \<le> uint (rend r)"
    using v by (simp add: text_range_valid_def word_le_def)
  have s: "uint (rstart r + word_of_int k) = uint (rstart r) + k"
    using lo hi le by (intro uint_shift) simp_all
  have e: "uint (rend r + word_of_int k) = uint (rend r) + k"
    using lo hi le by (intro uint_shift) simp_all
  have "rstart r + word_of_int k \<noteq> EPOS"
  proof
    assume "rstart r + word_of_int k = EPOS"
    then have "uint (rstart r) + k = 2 ^ 64 - 1" using s uint_EPOS by simp
    with hi le show False by simp
  qed
  moreover have "rend r + word_of_int k \<noteq> EPOS"
  proof
    assume "rend r + word_of_int k = EPOS"
    then have "uint (rend r) + k = 2 ^ 64 - 1" using e uint_EPOS by simp
    with hi show False by simp
  qed
  moreover have "rstart r + word_of_int k \<le> rend r + word_of_int k"
    using s e le by (simp add: word_le_def)
  ultimately show ?thesis by (simp add: text_range_valid_def shift_range_def)
qed

lemma apply_change_spec:
  assumes v: "type_has_delete (ctype c) \<longrightarrow> text_range_valid (shift_range (a_delta st) (range c))"
    and cnt: "0 \<le> count c"
  shows "a_text (apply_change visual c st) = spec_edit_text (a_delta st) c (a_text st)"
    and "a_delta (apply_change visual c st) = a_delta st + spec_change_delta c"
proof -
  have sz: "type_has_delete (ctype c) \<Longrightarrow>
        text_range_size (shift_range (a_delta st) (range c)) = rend (range c) - rstart (range c)"
    using v by (simp add: text_range_size_def) (simp add: shift_range_def)
  have n: "(of_nat (nat (count c)) :: size_t) = of_int (count c)"
    using cnt by simp
  show "a_text (apply_change visual c st) = spec_edit_text (a_delta st) c (a_text st)"
    by (simp add: apply_change_def apply_insert_def apply_delete_def Let_def insert_loop_eq
        spec_edit_text_def)
  show "a_delta (apply_change visual c st) = a_delta st + spec_change_delta c"
    using sz n
    by (simp add: apply_change_def apply_insert_def apply_delete_def Let_def insert_loop_eq
        spec_change_delta_def)
qed

lemma spec_change_delta_ideal:
  assumes "0 \<le> count c"
  shows "spec_change_delta c = word_of_int (ideal_delta c)"
proof -
  have n: "(of_nat (nat (count c)) :: size_t) = of_int (count c)"
    using assms by simp
  have "(word_of_int (int (unat (len c) * nat (count c))) :: size_t) =
        of_nat (unat (len c)) * of_nat (nat (count c))"
    by (simp only: of_nat_mult of_int_mult of_int_of_nat_eq)
  also have "\<dots> = len c * of_int (count c)"
    by (simp only: n) simp
  finally have m: "(word_of_int (int (unat (len c) * nat (count c))) :: size_t) =
        len c * of_int (count c)" .
  show ?thesis
    unfolding spec_change_delta_def ideal_delta_def inserted_bytes_def
    by (simp only: of_int_diff m split: if_splits) simp
qed

lemma ideal_delta_bounds:
  assumes "text_range_valid (range c)"
  shows "- (uint (rend (range c)) - uint (rstart (range c))) \<le> ideal_delta c"
    and "ideal_delta c \<le> int (inserted_bytes c)"
proof -
  have "uint (rstart (range c)) \<le> uint (rend (range c))"
    using assms by (simp add: text_range_valid_def word_le_def)
  then show "- (uint (rend (range c)) - uint (rstart (range c))) \<le> ideal_delta c"
    and "ideal_delta c \<le> int (inserted_bytes c)"
    by (simp_all add: ideal_delta_def)
qed

lemma apply_changes_spec:
  assumes "sorted_wrt ends_before cs"
    and "list_all (\<lambda>c. text_range_valid (range c)) cs"
    and "counts_nonneg cs"
    and "a_delta st = word_of_int k"
    and "\<forall>c\<in>set cs. 0 \<le> uint (rstart (range c)) + k"
    and "\<forall>c\<in>set cs. uint (rend (range c)) + k + int (total_inserted cs) < 2 ^ 64 - 1"
  shows "(a_text (apply_changes visual cs st), a_delta (apply_changes visual cs st)) =
         spec_apply (a_delta st) cs (a_text st)"
  using assms
proof (induction cs arbitrary: st k)
  case Nil
  then show ?case by simp
next
  case (Cons c cs)
  have vc: "text_range_valid (range c)" using Cons.prems(2) by simp
  have cnt: "0 \<le> count c" using Cons.prems(3) by (simp add: counts_nonneg_def)
  have lo: "0 \<le> uint (rstart (range c)) + k" using Cons.prems(5) by simp
  have hi': "uint (rend (range c)) + k + int (total_inserted (c # cs)) < 2 ^ 64 - 1"
    using Cons.prems(6) by simp
  then have hi: "uint (rend (range c)) + k < 2 ^ 64 - 1" by simp
  have sv: "text_range_valid (shift_range (a_delta st) (range c))"
    unfolding Cons.prems(4) by (rule shifted_valid[OF lo hi vc])
  let ?st = "apply_change visual c st"
  have t: "a_text ?st = spec_edit_text (a_delta st) c (a_text st)"
    and d: "a_delta ?st = a_delta st + spec_change_delta c"
    using apply_change_spec[of c st visual] sv cnt by simp_all
  let ?k = "k + ideal_delta c"
  have dk: "a_delta ?st = word_of_int ?k"
    using d Cons.prems(4) spec_change_delta_ideal[OF cnt] by simp
  have le: "uint (rstart (range c)) \<le> uint (rend (range c))"
    using vc by (simp add: text_range_valid_def word_le_def)
  have lo': "\<forall>c'\<in>set cs. 0 \<le> uint (rstart (range c')) + ?k"
  proof
    fix c' assume c': "c' \<in> set cs"
    then have "ends_before c c'" using Cons.prems(1) by simp
    then have "uint (rend (range c)) \<le> uint (rstart (range c'))"
      by (simp add: ends_before_def word_le_def)
    with ideal_delta_bounds(1)[OF vc] lo show "0 \<le> uint (rstart (range c')) + ?k"
      by simp
  qed
  have tot: "int (total_inserted (c # cs)) = int (inserted_bytes c) + int (total_inserted cs)"
    by (simp add: total_inserted_def)
  have hi'': "\<forall>c'\<in>set cs. uint (rend (range c')) + ?k + int (total_inserted cs) < 2 ^ 64 - 1"
  proof
    fix c' assume c': "c' \<in> set cs"
    then have "uint (rend (range c')) + k + int (total_inserted (c # cs)) < 2 ^ 64 - 1"
      using Cons.prems(6) by simp
    with ideal_delta_bounds(2)[OF vc] tot
    show "uint (rend (range c')) + ?k + int (total_inserted cs) < 2 ^ 64 - 1"
      by simp
  qed
  have "(a_text (apply_changes visual cs ?st), a_delta (apply_changes visual cs ?st)) =
        spec_apply (a_delta ?st) cs (a_text ?st)"
  proof (rule Cons.IH[OF _ _ _ dk lo' hi''])
    show "sorted_wrt ends_before cs" using Cons.prems(1) by simp
    show "list_all (\<lambda>c. text_range_valid (range c)) cs" using Cons.prems(2) by simp
    show "counts_nonneg cs" using Cons.prems(3) by (simp add: counts_nonneg_def)
  qed
  then show ?case by (simp add: t d)
qed

lemma spec_apply_delta:
  "snd (spec_apply delta cs content) = delta + sum_list (map spec_change_delta cs)"
  by (induction cs arbitrary: delta content) (simp_all add: algebra_simps)


text \<open>
  C8. In the apply phase the changes of a file's transcript are visited in list order
  while the offset \<open>delta\<close> runs from 0: each change is applied at its recorded range
  shifted by the current \<open>delta\<close>, its deletion before its insertion of \<open>count\<close> copies
  of the data at the shifted start, and \<open>delta\<close> grows by \<open>len * count\<close> for an insert and
  shrinks by \<open>range.end - range.start\<close> for a delete. So the text and the offset at the
  end of the loop are those of \<open>spec_apply\<close>, and the text of a file that is not
  internal and has no transcript error becomes that text. This is for a transcript as
  \<open>change_new\<close> builds it, with no negative count (the handlers pass counts from 1
  on) and with all positions staying below \<open>EPOS\<close>.
\<close>

theorem apply_phase_running_delta:
  assumes inv: "transcript_inv t"
    and cnt: "counts_nonneg (changes t)"
    and fits: "fits_address_space (changes t)"
  shows "a_text (apply_changes visual (changes t) \<lparr>a_text = content, a_delta = 0, a_events = []\<rparr>) =
           fst (spec_apply 0 (changes t) content) \<and>
         a_delta (apply_changes visual (changes t) \<lparr>a_text = content, a_delta = 0, a_events = []\<rparr>) =
           sum_list (map spec_change_delta (changes t)) \<and>
         (transcript f = t \<and> \<not> internal f \<and> error t = SAM_ERR_OK \<longrightarrow>
            ftext (fst (apply_file visual f err)) = fst (spec_apply 0 (changes t) (ftext f)))"
proof -
  have run: "(a_text (apply_changes visual (changes t) \<lparr>a_text = x, a_delta = 0, a_events = []\<rparr>),
          a_delta (apply_changes visual (changes t) \<lparr>a_text = x, a_delta = 0, a_events = []\<rparr>)) =
         spec_apply 0 (changes t) x" for x
  proof -
    let ?st = "\<lparr>a_text = x, a_delta = 0, a_events = []\<rparr>"
    have "(a_text (apply_changes visual (changes t) ?st), a_delta (apply_changes visual (changes t) ?st)) =
          spec_apply (a_delta ?st) (changes t) (a_text ?st)"
    proof (rule apply_changes_spec[where k = 0])
      show "sorted_wrt ends_before (changes t)" using inv by (simp add: transcript_inv_def)
      show "list_all (\<lambda>c. text_range_valid (range c)) (changes t)"
        using inv by (simp add: transcript_inv_def)
      show "counts_nonneg (changes t)" by (rule cnt)
      show "a_delta ?st = word_of_int 0" by simp
      show "\<forall>c\<in>set (changes t). 0 \<le> uint (rstart (range c)) + 0" by simp
      show "\<forall>c\<in>set (changes t). uint (rend (range c)) + 0 + int (total_inserted (changes t)) < 2 ^ 64 - 1"
      proof
        fix c assume "c \<in> set (changes t)"
        then have "unat (rend (range c)) + total_inserted (changes t) < 2 ^ 64 - 1"
          using fits by (simp add: fits_address_space_def list_all_iff)
        then have "int (unat (rend (range c)) + total_inserted (changes t)) < int (2 ^ 64 - 1)"
          by (simp only: of_nat_less_iff)
        then show "uint (rend (range c)) + 0 + int (total_inserted (changes t)) < 2 ^ 64 - 1"
          by simp
      qed
    qed
    then show ?thesis by simp
  qed
  have a: "a_text (apply_changes visual (changes t) \<lparr>a_text = x, a_delta = 0, a_events = []\<rparr>) =
           fst (spec_apply 0 (changes t) x)" for x
    using run[of x] by (metis fst_conv)
  have b: "a_delta (apply_changes visual (changes t) \<lparr>a_text = content, a_delta = 0, a_events = []\<rparr>) =
           sum_list (map spec_change_delta (changes t))"
    using run[of content] spec_apply_delta[of 0 "changes t" content] by (metis snd_conv add_0)
  have c: "transcript f = t \<and> \<not> internal f \<and> error t = SAM_ERR_OK \<longrightarrow>
            ftext (fst (apply_file visual f err)) = fst (spec_apply 0 (changes t) (ftext f))"
    using a[of "ftext f"] by (auto simp: apply_file_def Let_def)
  from a[of content] b c show ?thesis by blast
qed



text \<open>The sample edits: the text becomes \<open>BETA! gamma!!\<close> and the offset ends at \<open>-3\<close>.\<close>

lemma sample_transcript_changes:
  "changes sample_transcript =
     [\<lparr>ctype = TRANSCRIPT_DELETE, win = 0, sel = None,
        range = \<lparr>rstart = 0, rend = 6\<rparr>, data = [], len = 0, count = 0\<rparr>,
      \<lparr>ctype = TRANSCRIPT_CHANGE, win = 0, sel = None,
        range = \<lparr>rstart = 6, rend = 10\<rparr>, data = ''BETA!'', len = 5, count = 1\<rparr>,
      \<lparr>ctype = TRANSCRIPT_INSERT, win = 0, sel = None,
        range = \<lparr>rstart = 16, rend = 16\<rparr>, data = ''!'', len = 1, count = 2\<rparr>]"
  by (simp add: sample_transcript_def sam_delete_def sam_change_def sam_insert_def change_new_def
      text_range_valid_def text_range_new_def EPOS_def conflicts_def insert_index_def
      walk_start_def transcript_zero_def set_payload_def fresh_change_def)

lemma sample_fits: "fits_address_space (changes sample_transcript)"
  by (simp add: sample_transcript_changes fits_address_space_def total_inserted_def
      inserted_bytes_def)

lemma sample_counts: "counts_nonneg (changes sample_transcript)"
  by (simp add: sample_transcript_changes counts_nonneg_def)

lemma replicate_two: "replicate 2 x = [x, x]"
  by (simp add: numeral_2_eq_2)

lemma sample_spec: "spec_apply 0 (changes sample_transcript) ''alpha beta gamma'' =
   (''BETA! gamma!!'', - 3)"
  by (simp add: replicate_two sample_transcript_changes spec_change_delta_def spec_edit_text_def
      spec_insert_copies_def shift_range_def text_delete_range_def text_range_valid_def EPOS_def)


theorem apply_phase_running_delta_witness:
  "transcript_inv sample_transcript \<and>
   counts_nonneg (changes sample_transcript) \<and>
   fits_address_space (changes sample_transcript) \<and>
   a_text (apply_changes False (changes sample_transcript)
             \<lparr>a_text = ''alpha beta gamma'', a_delta = 0, a_events = []\<rparr>) = ''BETA! gamma!!'' \<and>
   a_delta (apply_changes False (changes sample_transcript)
             \<lparr>a_text = ''alpha beta gamma'', a_delta = 0, a_events = []\<rparr>) = - 3"
proof -
  have inv: "transcript_inv sample_transcript"
    unfolding sample_transcript_def by (rule transcript_ops_inv[OF transcript_inv_zero])
  note r = apply_phase_running_delta[OF inv sample_counts sample_fits,
      of False "''alpha beta gamma''"]
  have t: "a_text (apply_changes False (changes sample_transcript)
             \<lparr>a_text = ''alpha beta gamma'', a_delta = 0, a_events = []\<rparr>) = ''BETA! gamma!!''"
    using r sample_spec by simp
  have d: "a_delta (apply_changes False (changes sample_transcript)
             \<lparr>a_text = ''alpha beta gamma'', a_delta = 0, a_events = []\<rparr>) = - 3"
    using r spec_apply_delta[of 0 "changes sample_transcript" "''alpha beta gamma''"] sample_spec
    by simp
  from inv sample_counts sample_fits t d show ?thesis by blast
qed

section \<open>The lexer on lines without braces\<close>

text \<open>
  Away from the braces the lexer does what is asked of it: for a line that holds
  neither \<open>{\<close> nor \<open>}\<close>, \<open>sam_lex\<close> returns, and the slices of its tokens in emission
  order spell the line without its whitespace.
\<close>

lemma stream_bytes_append:
  "stream_bytes line (s @ t) = stream_bytes line s @ stream_bytes line t"
  by (simp add: stream_bytes_def)

lemma stream_bytes_push:
  "stream_bytes line (sam_token_push s accum) = stream_bytes line s @ token_bytes line accum"
  by (simp add: sam_token_push_def stream_bytes_def token_bytes_def)

lemma without_space_append:
  "without_space (xs @ ys) = without_space xs @ without_space ys"
  by (simp add: without_space_def)

lemma drop_Cons_facts:
  assumes "drop pos line = cp # rest"
  shows "pos < length line" and "rest = drop (Suc pos) line"
    and "take (Suc pos) line = take pos line @ [cp]"
proof -
  show lt: "pos < length line"
    using assms by (metis drop_all list.distinct(1) not_le)
  show "rest = drop (Suc pos) line"
    using assms by (metis drop_Suc list.sel(3) tl_drop)
  have "line ! pos = cp" using assms lt by (metis Cons_nth_drop_Suc list.inject)
  then show "take (Suc pos) line = take pos line @ [cp]"
    using lt by (simp add: take_Suc_conv_app_nth)
qed

lemma token_bytes_one:
  assumes "drop pos line = cp # rest"
  shows "token_bytes line \<lparr>tstart = pos, tlength = 1, ttype = ty\<rparr> = [cp]"
  using assms by (simp add: token_bytes_def)

lemma token_bytes_grow:
  assumes "drop pos line = cp # rest" and "tstart accum + tlength accum = pos"
  shows "token_bytes line (accum\<lparr>tlength := tlength accum + 1\<rparr>) = token_bytes line accum @ [cp]"
proof -
  have d: "drop (tlength accum) (drop (tstart accum) line) = cp # rest"
    using assms by (simp add: add.commute)
  have "take (Suc (tlength accum)) (drop (tstart accum) line) =
        take (tlength accum) (drop (tstart accum) line) @ [cp]"
    by (rule drop_Cons_facts(3)[OF d])
  then show ?thesis by (simp add: token_bytes_def)
qed

lemma lex_inv_space:
  assumes inv: "lex_inv line s accum pos (cp # rest)" and sp: "ISSPACE cp"
  shows "lex_inv line (sam_token_push s accum) (fresh_accum (Suc pos, rest)) (Suc pos) rest"
proof -
  from inv have d: "drop pos line = cp # rest" by (simp add: lex_inv_def)
  note f = drop_Cons_facts[OF d]
  have "without_space (take (Suc pos) line) = without_space (take pos line)"
    using sp by (simp add: f(3) without_space_def)
  then show ?thesis
    using inv f(1,2)
    by (simp add: lex_inv_def stream_bytes_push fresh_accum_def token_bytes_def)
qed

lemma lex_inv_single:
  assumes inv: "lex_inv line s accum pos (cp # rest)" and sp: "\<not> ISSPACE cp"
  shows "lex_inv line (sam_token_at (sam_token_push s accum) ty (pos, cp # rest))
           (fresh_accum (Suc pos, rest)) (Suc pos) rest"
proof -
  from inv have d: "drop pos line = cp # rest" by (simp add: lex_inv_def)
  note f = drop_Cons_facts[OF d]
  have w: "without_space (take (Suc pos) line) = without_space (take pos line) @ [cp]"
    using sp by (simp add: f(3) without_space_def)
  have "stream_bytes line (sam_token_at (sam_token_push s accum) ty (pos, cp # rest)) =
        stream_bytes line s @ token_bytes line accum @ [cp]"
    using token_bytes_one[OF d, of ty]
    by (simp add: sam_token_at_def stream_bytes_append stream_bytes_push) (simp add: stream_bytes_def)
  then show ?thesis
    using inv f(1,2) w
    by (simp add: lex_inv_def fresh_accum_def) (simp add: token_bytes_def)
qed

lemma lex_inv_grow:
  assumes inv: "lex_inv line s accum pos (cp # rest)" and sp: "\<not> ISSPACE cp"
  shows "lex_inv line s (accum\<lparr>tlength := tlength accum + 1\<rparr>) (Suc pos) rest"
proof -
  from inv have d: "drop pos line = cp # rest" and e: "tstart accum + tlength accum = pos"
    by (simp_all add: lex_inv_def)
  note f = drop_Cons_facts[OF d]
  have w: "without_space (take (Suc pos) line) = without_space (take pos line) @ [cp]"
    using sp by (simp add: f(3) without_space_def)
  show ?thesis
    using inv f(1,2) w token_bytes_grow[OF d e]
    by (simp add: lex_inv_def)
qed

lemma lex_inv_pipe:
  assumes inv: "lex_inv line s accum pos (cp # rest)" and sp: "\<not> ISSPACE cp"
    and z: "tlength accum = 0"
  shows "lex_inv line (sam_token_push s (accum\<lparr>tlength := tlength accum + 1\<rparr>))
           (fresh_accum (Suc pos, rest)) (Suc pos) rest"
proof -
  from inv have d: "drop pos line = cp # rest" and e: "tstart accum + tlength accum = pos"
    by (simp_all add: lex_inv_def)
  note f = drop_Cons_facts[OF d]
  have w: "without_space (take (Suc pos) line) = without_space (take pos line) @ [cp]"
    using sp by (simp add: f(3) without_space_def)
  have "stream_bytes line (sam_token_push s (accum\<lparr>tlength := tlength accum + 1\<rparr>)) =
        stream_bytes line s @ token_bytes line accum @ [cp]"
    using token_bytes_grow[OF d e] by (simp add: stream_bytes_push)
  then show ?thesis
    using inv f(1,2) w
    by (simp add: lex_inv_def fresh_accum_def) (simp add: token_bytes_def)
qed

lemma digits_no_space: "ISDIGIT c \<Longrightarrow> \<not> ISSPACE c"
  by (auto simp: ISDIGIT_def ISSPACE_def)

lemma lex_inv_digits:
  assumes inv: "lex_inv line s accum pos (cp # rest)" and dg: "ISDIGIT cp"
    and raw': "raw' = consume_digits (pos, cp # rest)"
  shows "lex_inv line
           (sam_token_push s accum @ [\<lparr>tstart = pos, tlength = fst raw' - pos, ttype = ST_NUMBER\<rparr>])
           (fresh_accum raw') (fst raw') (snd raw')"
proof -
  define raw where "raw = cp # rest"
  define ds where "ds = takeWhile ISDIGIT raw"
  define dd where "dd = dropWhile ISDIGIT raw"
  from inv have d: "drop pos line = raw" and le: "pos \<le> length line"
    and acc: "tstart accum + tlength accum = pos"
    and sb: "stream_bytes line s @ token_bytes line accum = without_space (take pos line)"
    by (simp_all add: lex_inv_def raw_def)
  have fst': "fst raw' = pos + length ds" and snd': "snd raw' = dd"
    using raw' by (simp_all add: consume_digits_def ds_def dd_def raw_def)
  have split: "raw = ds @ dd"
    by (simp add: ds_def dd_def)
  have line: "line = take pos line @ ds @ dd"
    using d split by (metis append_take_drop_id)
  have lp: "length (take pos line) = pos" using le by simp
  have "take (length ds) (drop pos line) = ds"
    unfolding d split by simp
  then have t1: "take (pos + length ds) line = take pos line @ ds"
    by (simp add: take_add)
  have "drop (length ds) (drop pos line) = dd"
    unfolding d split by simp
  then have t2: "drop (pos + length ds) line = dd"
    by (simp add: add.commute)
  have "length (drop pos line) = length ds + length dd"
    unfolding d split by simp
  then have bound: "pos + length ds \<le> length line"
    using le by simp
  have ws: "without_space ds = ds"
    unfolding without_space_def ds_def
    by (rule filter_True) (auto dest: set_takeWhileD digits_no_space)
  have tb: "token_bytes line \<lparr>tstart = pos, tlength = length ds, ttype = ST_NUMBER\<rparr> = ds"
    using d split by (simp add: token_bytes_def)
  have "stream_bytes line
          (sam_token_push s accum @ [\<lparr>tstart = pos, tlength = length ds, ttype = ST_NUMBER\<rparr>]) =
        stream_bytes line s @ token_bytes line accum @ ds"
    using tb by (simp add: stream_bytes_append stream_bytes_push) (simp add: stream_bytes_def)
  moreover have "without_space (take (pos + length ds) line) = without_space (take pos line) @ ds"
    by (simp add: t1 without_space_append ws)
  ultimately have "stream_bytes line
          (sam_token_push s accum @ [\<lparr>tstart = pos, tlength = length ds, ttype = ST_NUMBER\<rparr>]) @
        token_bytes line (fresh_accum raw') = without_space (take (pos + length ds) line)"
    using sb by (simp add: fresh_accum_def token_bytes_def)
  then show ?thesis
    using bound t2 by (simp add: lex_inv_def fst' snd' fresh_accum_def)
qed


lemma sam_lex_loop_clean:
  "lex_inv line s accum pos raw \<Longrightarrow> CHR ''{'' \<notin> set raw \<Longrightarrow> CHR ''}'' \<notin> set raw \<Longrightarrow>
   \<exists>toks. sam_lex_loop s accum pos raw = Some toks \<and> stream_bytes line toks = without_space line"
proof (induction s accum pos raw rule: sam_lex_loop.induct)
  case (1 s accum pos)
  then show ?case by (simp add: lex_inv_def stream_bytes_push)
next
  case (2 s accum pos cp rest)
  note inv = "2.prems"(1)
  have nb: "cp \<noteq> CHR ''{''" "cp \<noteq> CHR ''}''" "CHR ''{'' \<notin> set rest" "CHR ''}'' \<notin> set rest"
    using "2.prems"(2,3) by auto
  show ?case
  proof (cases "ISSPACE cp")
    case True
    have "\<exists>toks. sam_lex_loop (sam_token_push s accum) (fresh_accum (Suc pos, rest)) (Suc pos) rest
              = Some toks \<and> stream_bytes line toks = without_space line"
      by (rule "2.IH"(1)[OF True lex_inv_space[OF inv True] nb(3,4)])
    then show ?thesis using True by simp
  next
    case ns: False
    show ?thesis
    proof (cases "ISDIGIT cp")
      case True
      define raw' where "raw' = consume_digits (pos, cp # rest)"
      define tok where "tok = \<lparr>tstart = pos, tlength = fst raw' - pos, ttype = ST_NUMBER\<rparr>"
      have sub: "set (snd raw') \<subseteq> set (cp # rest)"
        by (auto simp: raw'_def consume_digits_def dest: set_dropWhileD split: if_splits)
      have "\<exists>toks. sam_lex_loop (sam_token_push s accum @ [tok]) (fresh_accum raw') (fst raw') (snd raw')
              = Some toks \<and> stream_bytes line toks = without_space line"
      proof (rule "2.IH"(2)[OF ns True raw'_def tok_def])
        show "lex_inv line (sam_token_push s accum @ [tok]) (fresh_accum raw') (fst raw') (snd raw')"
          unfolding tok_def by (rule lex_inv_digits[OF inv True raw'_def])
        show "CHR ''{'' \<notin> set (snd raw')" using sub "2.prems"(2) by blast
        show "CHR ''}'' \<notin> set (snd raw')" using sub "2.prems"(3) by blast
      qed
      then show ?thesis using ns True by (simp add: Let_def raw'_def tok_def)
    next
      case nd: False
      show ?thesis
      proof (cases "(cp = CHR ''>'' \<or> cp = CHR ''<'' \<or> cp = CHR ''|'') \<and> tlength accum = 0")
        case True
        then have z: "tlength accum = 0" by simp
        have "\<exists>toks. sam_lex_loop (sam_token_push s (accum\<lparr>tlength := tlength accum + 1\<rparr>))
                  (fresh_accum (Suc pos, rest)) (Suc pos) rest
              = Some toks \<and> stream_bytes line toks = without_space line"
          by (rule "2.IH"(5)[OF ns nd nb(1,2) True lex_inv_pipe[OF inv ns z] nb(3,4)])
        then show ?thesis using ns nd nb True by simp
      next
        case np: False
        show ?thesis
        proof (cases "IS_SAM_DELIMITER cp")
          case True
          have "\<exists>toks. sam_lex_loop (sam_token_at (sam_token_push s accum) ST_DELIMITER (pos, cp # rest))
                  (fresh_accum (Suc pos, rest)) (Suc pos) rest
              = Some toks \<and> stream_bytes line toks = without_space line"
            by (rule "2.IH"(6)[OF ns nd nb(1,2) np True lex_inv_single[OF inv ns] nb(3,4)])
          then show ?thesis using ns nd nb True by (simp add: np)
        next
          case False
          have "\<exists>toks. sam_lex_loop s (accum\<lparr>tlength := tlength accum + 1\<rparr>) (Suc pos) rest
              = Some toks \<and> stream_bytes line toks = without_space line"
            by (rule "2.IH"(7)[OF ns nd nb(1,2) np False lex_inv_grow[OF inv ns] nb(3,4)])
          then show ?thesis using ns nd nb False by (simp add: np)
        qed
      qed
    qed
  qed
qed

lemma sam_lex_without_braces:
  assumes "CHR ''{'' \<notin> set line" and "CHR ''}'' \<notin> set line"
  shows "\<exists>toks. sam_lex line = Some toks \<and> stream_bytes line toks = without_space line"
proof -
  have "lex_inv line [] (fresh_accum (0, line)) 0 line"
    by (simp add: lex_inv_def fresh_accum_def stream_bytes_def token_bytes_def without_space_def)
  from sam_lex_loop_clean[OF this assms] show ?thesis by (simp add: sam_lex_def)
qed

section \<open>Validation of streams without invalid tokens\<close>



section \<open>Recording does not change a run\<close>

text \<open>
  The record kept beside the editor is an observation only: with the record taken
  away, a recording run of the loop is the run of the loop on the collaborators as
  they are.
\<close>

lemma forget_simps [simp]:
  "should_exit (forget vis) = should_exit vis"
  "sam_log (forget vis) = sam_log vis"
  "world (forget vis) = fst (world vis)"
  "forget (vis\<lparr>should_exit := b\<rparr>) = (forget vis)\<lparr>should_exit := b\<rparr>"
  "forget (vis\<lparr>sam_log := l\<rparr>) = (forget vis)\<lparr>sam_log := l\<rparr>"
  by (simp_all add: forget_def)

lemma dispatch_recording:
  assumes "dispatch (recording ops) d loc sts vis = (loc', sts', vis')"
  shows "dispatch ops d loc sts (forget vis) = (loc', sts', forget vis')"
proof (cases "did_looping_command loc \<and> has_flag d CMD_DESTRUCTIVE")
  case True
  with assms show ?thesis by (auto simp: dispatch_def Let_def)
next
  case False
  obtain w called where wc: "world vis = (w, called)" by (cases "world vis")
  obtain result n w' where e: "execute_command ops d (hd (command loc)) sts w = (result, n, w')"
    by (cases "execute_command ops d (hd (command loc)) sts w")
  from assms False wc e show ?thesis
    by (auto simp: dispatch_def recording_def Let_def forget_def)
qed

lemma exec_loop_recording:
  "forget_outcome (exec_loop (recording ops) loc sts vis) = exec_loop ops loc sts (forget vis)"
proof (induction "recording ops" loc sts vis rule: exec_loop.induct)
  case (1 loc vis)
  then show ?case by (simp add: forget_outcome_def)
next
  case (2 loc token sts vis)
  show ?case
  proof (cases "should_exit vis")
    case True
    then show ?thesis by (simp add: forget_outcome_def)
  next
    case ne: False
    show ?thesis
    proof (cases "ttype token")
      case ST_GROUP_START
      from "2.hyps"(4)[OF ne ST_GROUP_START] show ?thesis
        using ne ST_GROUP_START by simp
    next
      case ST_GROUP_END
      show ?thesis
      proof (cases "tl (command loc) = []")
        case True
        with ne ST_GROUP_END show ?thesis by (simp add: forget_outcome_def)
      next
        case False
        from "2.hyps"(3)[OF ne ST_GROUP_END False] show ?thesis
          using ne ST_GROUP_END False by simp
      qed
    next
      case ST_STRING
      obtain joined n where j: "sam_token_join_command_name (recording ops) token sts = (joined, n)"
        by (cases "sam_token_join_command_name (recording ops) token sts")
      then have j': "sam_token_join_command_name ops token sts = (joined, n)"
        by (simp add: recording_def)
      show ?thesis
      proof (cases "lookup_command_definition (recording ops) joined")
        case None
        then have None': "lookup_command_definition ops joined = None"
          by (simp add: recording_def)
        from "2.hyps"(6)[OF ne ST_STRING j[symmetric] None] show ?thesis
          using ne ST_STRING j j' None None' by simp
      next
        case (Some d)
        then have Some': "lookup_command_definition ops joined = Some d"
          by (simp add: recording_def)
        obtain loc' sts' vis' where dd: "dispatch (recording ops) d loc (drop n sts) vis = (loc', sts', vis')"
          by (cases "dispatch (recording ops) d loc (drop n sts) vis")
        note dd' = dispatch_recording[OF dd]
        from "2.hyps"(7)[OF ne ST_STRING j[symmetric] Some dd[symmetric] refl] show ?thesis
          using ne ST_STRING j j' Some Some' dd dd' by simp
      qed
    next
      case ST_INVALID
      from "2.hyps"(1)[OF ne ST_INVALID] show ?thesis
        using ne ST_INVALID by simp
    next
      case ST_DELIMITER
      from "2.hyps"(2)[OF ne ST_DELIMITER] show ?thesis
        using ne ST_DELIMITER by simp
    next
      case ST_NUMBER
      from "2.hyps"(5)[OF ne ST_NUMBER] show ?thesis
        using ne ST_NUMBER by simp
    qed
  qed
qed

section \<open>The lexer emits no invalid token\<close>






section \<open>Validation of a lexed line\<close>




text \<open>
  A stream that holds an \<open>ST_INVALID\<close> token is none that \<open>sam_lex\<close> builds. On such a
  stream the loop sets \<open>result\<close> to 0 and stops, and the assignment
  \<open>result = nesting == 0\<close> behind the loop discards that.
\<close>

lemma validate_accepts_invalid_token:
  "validate_token_stream [\<lparr>tstart = 0, tlength = 1, ttype = ST_INVALID\<rparr>] = True"
  by (simp add: validate_token_stream_def)

end
